theory Spec2Isabelle
  imports Main "HOL-Library.AList" "HOL-Library.Multiset" "HOL-Library.Char_ord"
    "HOL-Library.List_Lexorder"
begin

section \<open>Shared vocabulary\<close>

text \<open>
  The Bigtable access layer of package \<open>gcp\<close>: the table client
  (\<open>pkg/chunk/gcp/table_client.go\<close>) and the chunk object client with
  \<open>PutChunks\<close>, \<open>GetChunks\<close> and \<open>NewScanner\<close>.

  Go \<open>error\<close> values.  A non-nil error is a value of \<open>error\<close>; a nil error is
  \<open>None\<close> of \<open>error option\<close>, or the \<open>Inr\<close> side of a result.  gRPC status errors
  are the only ones \<open>status.FromError\<close> recognises; \<open>errors.Wrap\<close> and
  \<open>errors.WithStack\<close> of \<open>github.com/pkg/errors\<close> build new error values around
  an inner one.
\<close>

datatype code =
  Canceled | Unknown | InvalidArgument | DeadlineExceeded | NotFound | AlreadyExists
  | PermissionDenied | ResourceExhausted | FailedPrecondition | Aborted | OutOfRange
  | Unimplemented | Internal | Unavailable | DataLoss | Unauthenticated

datatype error =
  StatusError code string
  | PlainError string
  | Wrap error string
  | WithStack error
  | UnknownChunk string
  | CountMismatch nat nat

text \<open>
  \<open>UnknownChunk k\<close> is \<open>fmt.Errorf("Got row for unknown chunk: %s", k)\<close> and
  \<open>CountMismatch n r\<close> is
  \<open>fmt.Errorf("Asked for %d chunks for Bigtable, received %d", n, r)\<close>.

  Package-level constants of package \<open>gcp\<close> that the files at hand use but do not
  declare (\<open>columnFamily\<close>, \<open>column\<close>, \<open>maxRowReads\<close>) are taken as parameters.
\<close>

record pkgConsts =
  columnFamily :: string
  column :: string
  maxRowReads :: nat

section \<open>The table client\<close>

record FamilyInfo =
  Name :: string
  GCPolicy :: string

record TableInfo =
  Families :: "string list"
  FamilyInfos :: "FamilyInfo list"

record Config =
  TableCacheEnabled :: bool
  TableCacheExpiration :: int

record TableDesc =
  desc_Name :: string

text \<open>
  Times are integers counted from Go's zero \<open>time.Time\<close>, durations are integers in the
  same unit.  The struct \<open>tableClient\<close> without its connection handle:
\<close>

record tableClient =
  cfg :: Config
  tableInfo :: "string \<rightharpoonup> TableInfo"
  tableExpiration :: int

text \<open>
  The admin client of the backing store.  \<open>ListTables\<close> and \<open>DeleteTable\<close> only
  look at the answers of their admin calls, which are parameters: \<open>tables\<close> is the
  answer of \<open>c.client.Tables\<close>, \<open>info t\<close> the answer of \<open>c.client.TableInfo\<close> for
  table \<open>t\<close>.  \<open>CreateTable\<close> makes two writing calls in a row, so it threads a
  store state \<open>'st\<close> through them.
\<close>

record 'st adminClient =
  adminCreateTable :: "string \<Rightarrow> 'st \<Rightarrow> error option \<times> 'st"
  adminCreateColumnFamily :: "string \<Rightarrow> string \<Rightarrow> 'st \<Rightarrow> error option \<times> 'st"

definition NewTableClient :: "Config \<Rightarrow> tableClient" where
  "NewTableClient c = \<lparr>cfg = c, tableInfo = Map.empty, tableExpiration = 0\<rparr>"

fun hasColumnFamily :: "pkgConsts \<Rightarrow> FamilyInfo list \<Rightarrow> bool" where
  "hasColumnFamily K [] = False"
| "hasColumnFamily K (family # infos) =
     (if Name family = columnFamily K then True else hasColumnFamily K infos)"

text \<open>
  The loop of \<open>ListTables\<close> over the listed tables.  It carries the cache
  \<open>c.tableInfo\<close> and the output slice; an error of \<open>client.TableInfo\<close> leaves the
  function at once, with the cache as changed so far.
\<close>

fun listLoop ::
  "pkgConsts \<Rightarrow> (string \<Rightarrow> error + TableInfo) \<Rightarrow> bool \<Rightarrow> string list \<Rightarrow>
   (string \<rightharpoonup> TableInfo) \<Rightarrow> string list \<Rightarrow>
   (error + string list) \<times> (string \<rightharpoonup> TableInfo)" where
  "listLoop K info enabled [] ti output = (Inr output, ti)"
| "listLoop K info enabled (table # tables) ti output =
     (case (case ti table of
              None \<Rightarrow> info table
            | Some cached \<Rightarrow> if \<not> enabled then info table else Inr cached) of
        Inl err \<Rightarrow> (Inl (Wrap err ''client.TableInfo''), ti)
      | Inr i \<Rightarrow>
          if hasColumnFamily K (FamilyInfos i)
          then listLoop K info enabled tables ti (output @ [table])
          else listLoop K info enabled tables (ti(table \<mapsto> i)) output)"

text \<open>\<open>now1\<close> and \<open>now2\<close> are the two readings of \<open>time.Now()\<close>.\<close>

definition ListTables ::
  "pkgConsts \<Rightarrow> (error + string list) \<Rightarrow> (string \<Rightarrow> error + TableInfo) \<Rightarrow> int \<Rightarrow> int \<Rightarrow>
   tableClient \<Rightarrow> (error + string list) \<times> tableClient" where
  "ListTables K tables info now1 now2 c =
     (case tables of
        Inl err \<Rightarrow> (Inl (Wrap err ''client.Tables''), c)
      | Inr tables \<Rightarrow>
          (let c1 = (if tableExpiration c < now1
                     then c\<lparr>tableInfo := Map.empty,
                            tableExpiration := now2 + TableCacheExpiration (cfg c)\<rparr>
                     else c);
               (res, ti) = listLoop K info (TableCacheEnabled (cfg c1)) tables (tableInfo c1) []
           in (res, c1\<lparr>tableInfo := ti\<rparr>)))"

fun alreadyExistsError :: "error \<Rightarrow> bool" where
  "alreadyExistsError (StatusError c m) = (c = AlreadyExists)"
| "alreadyExistsError _ = False"

definition CreateTable ::
  "pkgConsts \<Rightarrow> 'st adminClient \<Rightarrow> TableDesc \<Rightarrow> 'st \<Rightarrow> error option \<times> 'st" where
  "CreateTable K A desc st =
     (case adminCreateTable A (desc_Name desc) st of
        (Some err, st1) \<Rightarrow>
          if \<not> alreadyExistsError err then (Some (Wrap err ''client.CreateTable''), st1)
          else (case adminCreateColumnFamily A (desc_Name desc) (columnFamily K) st1 of
                  (Some err2, st2) \<Rightarrow>
                    if \<not> alreadyExistsError err2
                    then (Some (Wrap err2 ''client.CreateColumnFamily''), st2)
                    else (None, st2)
                | (None, st2) \<Rightarrow> (None, st2))
      | (None, st1) \<Rightarrow>
          (case adminCreateColumnFamily A (desc_Name desc) (columnFamily K) st1 of
             (Some err2, st2) \<Rightarrow>
               if \<not> alreadyExistsError err2
               then (Some (Wrap err2 ''client.CreateColumnFamily''), st2)
               else (None, st2)
           | (None, st2) \<Rightarrow> (None, st2)))"

text \<open>\<open>deleted\<close> is the answer of \<open>c.client.DeleteTable\<close>.\<close>

definition DeleteTable :: "error option \<Rightarrow> string \<Rightarrow> tableClient \<Rightarrow> error option \<times> tableClient" where
  "DeleteTable deleted name c =
     (case deleted of
        Some err \<Rightarrow> (Some (Wrap err ''client.DeleteTable''), c)
      | None \<Rightarrow> (None, c\<lparr>tableInfo := (tableInfo c)(name := None)\<rparr>))"

text \<open>
  The states a table client can be in: it is made by \<open>NewTableClient\<close>, and only
  \<open>ListTables\<close> and \<open>DeleteTable\<close> write its fields.  The answers of the store and
  the clock are arbitrary at every call.
\<close>

inductive reachable :: "pkgConsts \<Rightarrow> tableClient \<Rightarrow> bool" for K :: pkgConsts where
  r_new: "reachable K (NewTableClient c0)"
| r_list: "reachable K c \<Longrightarrow> reachable K (snd (ListTables K tables info now1 now2 c))"
| r_delete: "reachable K c \<Longrightarrow> reachable K (snd (DeleteTable deleted name c))"

text \<open>
  An in-memory admin store used to run \<open>CreateTable\<close>: a table name is mapped to the
  list of its column families.  It answers \<open>AlreadyExists\<close> and \<open>NotFound\<close> as the
  backing store does.
\<close>

type_synonym memAdmin = "(string \<times> string list) list"

definition memAdminClient :: "memAdmin adminClient" where
  "memAdminClient =
     \<lparr>adminCreateTable = (\<lambda>t st. case map_of st t of
                       None \<Rightarrow> (None, st @ [(t, [])])
                     | Some fs \<Rightarrow> (Some (StatusError AlreadyExists t), st)),
      adminCreateColumnFamily = (\<lambda>t f st. case map_of st t of
                       None \<Rightarrow> (Some (StatusError NotFound t), st)
                     | Some fs \<Rightarrow>
                         if f \<in> set fs then (Some (StatusError AlreadyExists f), st)
                         else (None, AList.update t (fs @ [f]) st))\<rparr>"

text \<open>The answers of that store to the reading calls of \<open>ListTables\<close>.\<close>

definition memFamilyInfos :: "string list \<Rightarrow> FamilyInfo list" where
  "memFamilyInfos fs = map (\<lambda>f. \<lparr>Name = f, GCPolicy = []\<rparr>) fs"

definition memTables :: "memAdmin \<Rightarrow> error + string list" where
  "memTables st = Inr (map fst st)"

definition memTableInfo :: "memAdmin \<Rightarrow> string \<Rightarrow> error + TableInfo" where
  "memTableInfo st t =
     (case map_of st t of
        None \<Rightarrow> Inl (StatusError NotFound t)
      | Some fs \<Rightarrow> Inr \<lparr>Families = fs, FamilyInfos = memFamilyInfos fs\<rparr>)"

section \<open>The chunk object client\<close>

type_synonym bytes = string

text \<open>
  \<open>chunk.Chunk\<close>, with the fields that \<open>compareChunks\<close> reads.  \<open>From\<close> and \<open>Through\<close>
  are \<open>model.Time\<close> values.
\<close>

record Chunk =
  Fingerprint :: nat
  UserID :: string
  From :: int
  Through :: int
  Metric :: "(string \<times> string) list"
  Encoding :: nat
  Data :: bytes

text \<open>
  What the client asks of its collaborators: \<open>s.schemaCfg.ChunkTableFor\<close>,
  \<open>Chunk.ExternalKey\<close>, \<open>Chunk.Encoded\<close> and \<open>Chunk.Decode\<close>.  \<open>Decode\<close> writes into
  the chunk it is called on; the model returns the chunk so written.
\<close>

record env =
  ChunkTableFor :: "int \<Rightarrow> error + string"
  ExternalKey :: "Chunk \<Rightarrow> string"
  Encoded :: "Chunk \<Rightarrow> error + bytes"
  Decode :: "Chunk \<Rightarrow> bytes \<Rightarrow> error + Chunk"

subsection \<open>Mutations and rows of the Bigtable library\<close>

text \<open>
  A \<open>bigtable.Mutation\<close> is the list of its operations; \<open>mut.Set(family, column, ts,
  value)\<close> adds one.  \<open>bigtable.ServerTime\<close> is the timestamp that asks the store to use
  its own clock.
\<close>

datatype mutOp = SetCell string string int bytes

type_synonym Mutation = "mutOp list"

definition NewMutation :: Mutation where
  "NewMutation = []"

definition Set_mut :: "string \<Rightarrow> string \<Rightarrow> int \<Rightarrow> bytes \<Rightarrow> Mutation \<Rightarrow> Mutation" where
  "Set_mut family col ts val mut = mut @ [SetCell family col ts val]"

definition ServerTime :: int where
  "ServerTime = - 1"

text \<open>
  A \<open>bigtable.Row\<close> is a map from a family to its cells, here an association list.
  \<open>Key\<close> is the row key of the first cell found, and the empty string for a row
  without cells; \<open>row[family]\<close> is the empty slice for a family the row does not have.
\<close>

record ReadItem =
  Row :: string
  Column :: string
  Timestamp :: int
  Value :: bytes

type_synonym Row = "(string \<times> ReadItem list) list"

fun Key :: "Row \<Rightarrow> string" where
  "Key [] = []"
| "Key ((family, []) # r) = Key r"
| "Key ((family, item # items) # r) = Row item"

definition cellsOf :: "Row \<Rightarrow> string \<Rightarrow> ReadItem list" where
  "cellsOf row family = (case map_of row family of None \<Rightarrow> [] | Some items \<Rightarrow> items)"

subsection \<open>Grouping by table\<close>

text \<open>
  The maps from a table name to a slice (\<open>keys\<close> and \<open>muts\<close>) are association lists;
  \<open>m[t] = append(m[t], x)\<close> is \<open>appendAt\<close>.  Go visits the entries of a map in an
  unspecified order; the model visits them in the order of their first insertion.
\<close>

definition sliceAt :: "(string \<times> 'a list) list \<Rightarrow> string \<Rightarrow> 'a list" where
  "sliceAt m t = (case map_of m t of None \<Rightarrow> [] | Some xs \<Rightarrow> xs)"

definition appendAt :: "(string \<times> 'a list) list \<Rightarrow> string \<Rightarrow> 'a \<Rightarrow> (string \<times> 'a list) list" where
  "appendAt m t x = AList.update t (sliceAt m t @ [x]) m"

subsection \<open>PutChunks\<close>

text \<open>The first loop of \<open>PutChunks\<close>: one key and one mutation for each chunk.\<close>

fun putLoop ::
  "pkgConsts \<Rightarrow> env \<Rightarrow> Chunk list \<Rightarrow> (string \<times> string list) list \<Rightarrow>
   (string \<times> Mutation list) list \<Rightarrow>
   error + (string \<times> string list) list \<times> (string \<times> Mutation list) list" where
  "putLoop K E [] keys muts = Inr (keys, muts)"
| "putLoop K E (c # chunks) keys muts =
     (case Encoded E c of
        Inl err \<Rightarrow> Inl err
      | Inr buf \<Rightarrow>
          (let key = ExternalKey E c in
           case ChunkTableFor E (From c) of
             Inl err \<Rightarrow> Inl err
           | Inr tableName \<Rightarrow>
               (let mut = Set_mut (columnFamily K) (column K) 0 buf NewMutation
                in putLoop K E chunks (appendAt keys tableName key)
                     (appendAt muts tableName mut))))"

text \<open>
  The second loop: one \<open>ApplyBulk\<close> for each table.  \<open>applyBulk\<close> is the store's
  \<open>table.ApplyBulk\<close> on a store state: it answers with the per-row errors and the
  error of the call.
\<close>

fun firstErr :: "error option list \<Rightarrow> error option" where
  "firstErr [] = None"
| "firstErr (None # errs) = firstErr errs"
| "firstErr (Some err # errs) = Some err"

fun applyLoop ::
  "(string \<Rightarrow> string list \<Rightarrow> Mutation list \<Rightarrow> 'st \<Rightarrow> (error option list \<times> error option) \<times> 'st) \<Rightarrow>
   (string \<times> string list) list \<Rightarrow> (string \<times> Mutation list) list \<Rightarrow> 'st \<Rightarrow>
   error option \<times> 'st" where
  "applyLoop applyBulk [] muts st = (None, st)"
| "applyLoop applyBulk ((tableName, ks) # rest) muts st =
     (case applyBulk tableName ks (sliceAt muts tableName) st of
        ((errs, Some err), st1) \<Rightarrow> (Some err, st1)
      | ((errs, None), st1) \<Rightarrow>
          (case firstErr errs of
             Some err \<Rightarrow> (Some err, st1)
           | None \<Rightarrow> applyLoop applyBulk rest muts st1))"

definition PutChunks ::
  "pkgConsts \<Rightarrow> env \<Rightarrow>
   (string \<Rightarrow> string list \<Rightarrow> Mutation list \<Rightarrow> 'st \<Rightarrow> (error option list \<times> error option) \<times> 'st) \<Rightarrow>
   Chunk list \<Rightarrow> 'st \<Rightarrow> error option \<times> 'st" where
  "PutChunks K E applyBulk chunks st =
     (case putLoop K E chunks [] [] of
        Inl err \<Rightarrow> (Some err, st)
      | Inr (keys, muts) \<Rightarrow> applyLoop applyBulk keys muts st)"

subsection \<open>GetChunks: grouping and paging\<close>

fun groupLoop ::
  "env \<Rightarrow> Chunk list \<Rightarrow> (string \<times> string list) list \<Rightarrow> (string \<rightharpoonup> (string \<rightharpoonup> Chunk)) \<Rightarrow>
   error + (string \<times> string list) list \<times> (string \<rightharpoonup> (string \<rightharpoonup> Chunk))" where
  "groupLoop E [] keys chunks = Inr (keys, chunks)"
| "groupLoop E (c # input) keys chunks =
     (case ChunkTableFor E (From c) of
        Inl err \<Rightarrow> Inl err
      | Inr tableName \<Rightarrow>
          (let key = ExternalKey E c;
               inner = (case chunks tableName of None \<Rightarrow> Map.empty | Some m \<Rightarrow> m)
           in groupLoop E input (appendAt keys tableName key)
                (chunks(tableName \<mapsto> inner(key \<mapsto> c)))))"

text \<open>
  \<open>for i := 0; i < len(keys); i += maxRowReads\<close> with the page
  \<open>keys[i:util.Min(i+maxRowReads, len(keys))]\<close>.  With \<open>maxRowReads = 0\<close> and a key
  to read the loop does not end: the result is \<open>None\<close>.
\<close>

definition slice :: "'a list \<Rightarrow> nat \<Rightarrow> nat \<Rightarrow> 'a list" where
  "slice xs i j = take (j - i) (drop i xs)"

partial_function (option) pageLoop :: "nat \<Rightarrow> string list \<Rightarrow> nat \<Rightarrow> string list list option" where
  "pageLoop m keys i =
     (if i < length keys
      then Option.bind (pageLoop m keys (i + m))
             (\<lambda>pages. Some (slice keys i (min (i + m) (length keys)) # pages))
      else Some [])"

subsection \<open>GetChunks: one page goroutine\<close>

text \<open>
  What a page goroutine does to the rest of the program: it sends on \<open>outs\<close>, it
  sends on \<open>errs\<close>, or it panics.
\<close>

datatype action = SendOut Chunk | SendErr error | Panic

text \<open>
  The callback given to \<open>table.ReadRows\<close>, on one row.  It answers \<open>true\<close> after
  \<open>receivedChunks++\<close> and the send of the decoded chunk (\<open>Continue\<close>), it answers
  \<open>false\<close> after setting \<open>processingErr\<close> (\<open>Stop\<close>), or \<open>row[columnFamily][0]\<close> is out
  of range and the goroutine panics (\<open>IndexPanic\<close>).
\<close>

datatype cbResult = Continue Chunk | Stop error | IndexPanic

definition callback :: "pkgConsts \<Rightarrow> env \<Rightarrow> (string \<rightharpoonup> Chunk) \<Rightarrow> Row \<Rightarrow> cbResult" where
  "callback K E chunks row =
     (case chunks (Key row) of
        None \<Rightarrow> Stop (WithStack (UnknownChunk (Key row)))
      | Some chunk \<Rightarrow>
          (case cellsOf row (columnFamily K) of
             [] \<Rightarrow> IndexPanic
           | item # items \<Rightarrow>
               (case Decode E chunk (Value item) of
                  Inl err \<Rightarrow> Stop err
                | Inr decoded \<Rightarrow> Continue decoded)))"

text \<open>
  \<open>table.ReadRows\<close> runs the callback over the rows the store delivers, in their
  order, until it answers \<open>false\<close>.  The result is the sends made, then
  \<open>processingErr\<close>, \<open>receivedChunks\<close> and whether the goroutine panicked.
\<close>

fun rowsLoop ::
  "pkgConsts \<Rightarrow> env \<Rightarrow> (string \<rightharpoonup> Chunk) \<Rightarrow> Row list \<Rightarrow> nat \<Rightarrow>
   action list \<times> error option \<times> nat \<times> bool" where
  "rowsLoop K E chunks [] receivedChunks = ([], None, receivedChunks, False)"
| "rowsLoop K E chunks (row # rows) receivedChunks =
     (case callback K E chunks row of
        Stop err \<Rightarrow> ([], Some err, receivedChunks, False)
      | IndexPanic \<Rightarrow> ([Panic], None, receivedChunks, True)
      | Continue decoded \<Rightarrow>
          (case rowsLoop K E chunks rows (receivedChunks + 1) of
             (acts, res) \<Rightarrow> (SendOut decoded # acts, res)))"

text \<open>
  The goroutine of one page.  \<open>answer\<close> is what \<open>table.ReadRows\<close> does for the page:
  the rows it delivers and the error it returns once all of them are delivered.
\<close>

definition pageRun ::
  "pkgConsts \<Rightarrow> env \<Rightarrow> (string \<rightharpoonup> Chunk) \<Rightarrow> string list \<Rightarrow> Row list \<times> error option \<Rightarrow> action list" where
  "pageRun K E chunks page answer =
     (case rowsLoop K E chunks (fst answer) 0 of
        (acts, processingErr, receivedChunks, panicked) \<Rightarrow>
          if panicked then acts
          else (case processingErr of
                  Some perr \<Rightarrow> acts @ [SendErr perr]
                | None \<Rightarrow>
                    (case snd answer of
                       Some err \<Rightarrow> acts @ [SendErr (WithStack err)]
                     | None \<Rightarrow>
                         if receivedChunks < length page
                         then acts @ [SendErr (WithStack (CountMismatch (length page) receivedChunks))]
                         else acts)))"

text \<open>
  The goroutine started for a page of a table: it reads with \<open>chunks[tableName]\<close>,
  the inner map of its table (the empty map for a table without entry).
\<close>

definition chunksAt :: "(string \<rightharpoonup> (string \<rightharpoonup> Chunk)) \<Rightarrow> string \<Rightarrow> (string \<rightharpoonup> Chunk)" where
  "chunksAt chunks tableName = (case chunks tableName of None \<Rightarrow> Map.empty | Some m \<Rightarrow> m)"

definition goroutine ::
  "pkgConsts \<Rightarrow> env \<Rightarrow> (string \<Rightarrow> string list \<Rightarrow> Row list \<times> error option) \<Rightarrow>
   (string \<rightharpoonup> (string \<rightharpoonup> Chunk)) \<Rightarrow> string \<Rightarrow> string list \<Rightarrow> action list" where
  "goroutine K E readRows chunks tableName page =
     pageRun K E (chunksAt chunks tableName) page (readRows tableName page)"

text \<open>The goroutines started for all tables; \<open>None\<close> when a paging loop does not end.\<close>

fun spawnAll ::
  "pkgConsts \<Rightarrow> env \<Rightarrow> (string \<Rightarrow> string list \<Rightarrow> Row list \<times> error option) \<Rightarrow>
   (string \<rightharpoonup> (string \<rightharpoonup> Chunk)) \<Rightarrow> (string \<times> string list) list \<Rightarrow> action list list option" where
  "spawnAll K E readRows chunks [] = Some []"
| "spawnAll K E readRows chunks ((tableName, keys) # rest) =
     (case pageLoop (maxRowReads K) keys 0 of
        None \<Rightarrow> None
      | Some pages \<Rightarrow>
          (case spawnAll K E readRows chunks rest of
             None \<Rightarrow> None
           | Some procs \<Rightarrow>
               Some (map (goroutine K E readRows chunks tableName) pages @ procs)))"

subsection \<open>GetChunks: channels and the gathering loop\<close>

text \<open>
  A running call: what every goroutine has still to do, the contents of the two
  buffered channels, their capacity \<open>len(input)\<close>, \<open>ctx.Err()\<close> (\<open>None\<close> until the
  context is cancelled or its deadline passes), and the gathering loop, whose
  counter \<open>i\<close> is the length of \<open>output\<close>.
\<close>

datatype gather = Gathering "Chunk list" | Returned "error + Chunk list" | Crashed

record run =
  procs :: "action list list"
  outs :: "Chunk list"
  errs :: "error list"
  cap :: nat
  ctxErr :: "error option"
  main :: gather

definition GetChunks_start ::
  "pkgConsts \<Rightarrow> env \<Rightarrow> (string \<Rightarrow> string list \<Rightarrow> Row list \<times> error option) \<Rightarrow> Chunk list \<Rightarrow>
   (error + run) option" where
  "GetChunks_start K E readRows input =
     (case groupLoop E input [] Map.empty of
        Inl err \<Rightarrow> Some (Inl err)
      | Inr (keys, chunks) \<Rightarrow>
          (case spawnAll K E readRows chunks keys of
             None \<Rightarrow> None
           | Some ps \<Rightarrow>
               Some (Inr \<lparr>procs = ps, outs = [], errs = [], cap = length input,
                          ctxErr = None, main = Gathering []\<rparr>)))"

text \<open>
  One step of a running call.  A send needs room in the channel.  The \<open>select\<close> of the
  gathering loop takes any one of its cases that is ready.  A panic in a goroutine
  ends the program.  The context can be cancelled at any moment.
\<close>

inductive step :: "run \<Rightarrow> run \<Rightarrow> bool" where
  send_out:
    "main s \<noteq> Crashed \<Longrightarrow> j < length (procs s) \<Longrightarrow> procs s ! j = SendOut c # rest \<Longrightarrow>
     length (outs s) < cap s \<Longrightarrow>
     step s (s\<lparr>procs := (procs s)[j := rest], outs := outs s @ [c]\<rparr>)"
| send_err:
    "main s \<noteq> Crashed \<Longrightarrow> j < length (procs s) \<Longrightarrow> procs s ! j = SendErr e # rest \<Longrightarrow>
     length (errs s) < cap s \<Longrightarrow>
     step s (s\<lparr>procs := (procs s)[j := rest], errs := errs s @ [e]\<rparr>)"
| panic:
    "main s \<noteq> Crashed \<Longrightarrow> j < length (procs s) \<Longrightarrow> procs s ! j = Panic # rest \<Longrightarrow>
     step s (s\<lparr>main := Crashed\<rparr>)"
| cancel:
    "main s \<noteq> Crashed \<Longrightarrow> ctxErr s = None \<Longrightarrow> step s (s\<lparr>ctxErr := Some e\<rparr>)"
| recv_out:
    "main s = Gathering output \<Longrightarrow> length output < cap s \<Longrightarrow> outs s = c # cs \<Longrightarrow>
     step s (s\<lparr>outs := cs, main := Gathering (output @ [c])\<rparr>)"
| recv_err:
    "main s = Gathering output \<Longrightarrow> length output < cap s \<Longrightarrow> errs s = e # es \<Longrightarrow>
     step s (s\<lparr>errs := es, main := Returned (Inl e)\<rparr>)"
| recv_done:
    "main s = Gathering output \<Longrightarrow> length output < cap s \<Longrightarrow> ctxErr s = Some e \<Longrightarrow>
     step s (s\<lparr>main := Returned (Inl e)\<rparr>)"
| finish:
    "main s = Gathering output \<Longrightarrow> \<not> length output < cap s \<Longrightarrow>
     step s (s\<lparr>main := Returned (Inr output)\<rparr>)"

abbreviation steps :: "run \<Rightarrow> run \<Rightarrow> bool" where
  "steps \<equiv> step\<^sup>*\<^sup>*"

subsection \<open>An in-memory row store\<close>

text \<open>
  A store to run the client against: every table maps a row key to its row.
  \<open>memApplyBulk now\<close> writes the cells of each mutation, with the store's clock \<open>now\<close>
  for a cell sent with \<open>ServerTime\<close> and with the timestamp sent otherwise; a cell of
  the same column and timestamp is replaced.  \<open>memReadRows\<close> delivers the rows it
  has among those asked for, each once, in key order, and returns no error; it
  takes no notice of the context.
\<close>

type_synonym memStore = "string \<Rightarrow> string \<rightharpoonup> Row"

fun memSetCell :: "int \<Rightarrow> string \<Rightarrow> mutOp \<Rightarrow> Row \<Rightarrow> Row" where
  "memSetCell now key (SetCell family col ts val) row =
     (let t = (if ts = ServerTime then now else ts)
      in AList.update family
           (\<lparr>Row = key, Column = col, Timestamp = t, Value = val\<rparr>
              # filter (\<lambda>i. \<not> (Column i = col \<and> Timestamp i = t)) (cellsOf row family))
           row)"

fun memApplyRows :: "int \<Rightarrow> (string \<times> Mutation) list \<Rightarrow> (string \<rightharpoonup> Row) \<Rightarrow> (string \<rightharpoonup> Row)" where
  "memApplyRows now [] tbl = tbl"
| "memApplyRows now ((key, mut) # rest) tbl =
     memApplyRows now rest
       (tbl(key \<mapsto> fold (memSetCell now key) mut (case tbl key of None \<Rightarrow> [] | Some row \<Rightarrow> row)))"

definition memApplyBulk ::
  "int \<Rightarrow> string \<Rightarrow> string list \<Rightarrow> Mutation list \<Rightarrow> memStore \<Rightarrow>
   (error option list \<times> error option) \<times> memStore" where
  "memApplyBulk now tableName keys muts st =
     (if length keys \<noteq> length muts
      then (([], Some (PlainError ''mismatched rowKeys and mutation array lengths'')), st)
      else (([], None), st(tableName := memApplyRows now (zip keys muts) (st tableName))))"

definition memReadRows :: "memStore \<Rightarrow> string \<Rightarrow> string list \<Rightarrow> Row list \<times> error option" where
  "memReadRows st tableName page =
     (List.map_filter (st tableName) (sort (remdups page)), None)"

definition memEmpty :: memStore where
  "memEmpty = (\<lambda>t. Map.empty)"

section \<open>The shards of the scanner\<close>

text \<open>
  Modelled from the spec: the \<open>scanner\<close> type that \<open>NewScanner\<close> returns, with the code
  that turns a shard into a row range, is not among the files at hand.  The spec
  maps the shards \<open>0..239\<close> onto the two-character hexadecimal prefixes \<open>10\<close> to \<open>ff\<close>
  in order, and gives a shard the row range from its prefix to the lexicographic
  successor of the prefix.
\<close>

definition hexDigit :: "nat \<Rightarrow> char" where
  "hexDigit n = (if n < 10 then char_of (48 + n) else char_of (87 + n))"

definition shardPrefix :: "nat \<Rightarrow> string" where
  "shardPrefix shard = [hexDigit ((shard + 16) div 16), hexDigit ((shard + 16) mod 16)]"

text \<open>
  Modelled from the spec: the lexicographic successor of a prefix, which the missing
  scanner code takes as the end of a shard's range.  The last byte that is not
  \<open>0xff\<close> is raised by one and what follows is dropped; the empty result stands for
  a range without end.
\<close>

fun successorRev :: "string \<Rightarrow> string" where
  "successorRev [] = []"
| "successorRev (c # cs) =
     (if of_char c = (255 :: nat) then successorRev cs else char_of (of_char c + (1 :: nat)) # cs)"

definition prefixSuccessor :: "string \<Rightarrow> string" where
  "prefixSuccessor prefix = rev (successorRev (rev prefix))"

definition shardRange :: "nat \<Rightarrow> string \<times> string" where
  "shardRange shard = (shardPrefix shard, prefixSuccessor (shardPrefix shard))"

text \<open>Row keys are compared byte by byte, as strings are by \<open>\<le>\<close>.\<close>

definition inRange :: "string \<times> string \<Rightarrow> string \<Rightarrow> bool" where
  "inRange r key = (fst r \<le> key \<and> (snd r = [] \<or> key < snd r))"

definition isHex :: "char \<Rightarrow> bool" where
  "isHex c = (c \<in> set ''0123456789abcdef'')"

definition validPrefix :: "string \<Rightarrow> bool" where
  "validPrefix p = (case p of [a, b] \<Rightarrow> isHex a \<and> a \<noteq> CHR ''0'' \<and> isHex b | _ \<Rightarrow> False)"

section \<open>Vocabulary of the properties\<close>

text \<open>An answer of the store that \<open>CreateTable\<close> takes for success.\<close>

definition okOrExists :: "error option \<Rightarrow> bool" where
  "okOrExists r = (case r of None \<Rightarrow> True | Some e \<Rightarrow> alreadyExistsError e)"

text \<open>No cached entry carries the required column family.\<close>

definition cacheLacking :: "pkgConsts \<Rightarrow> (string \<rightharpoonup> TableInfo) \<Rightarrow> bool" where
  "cacheLacking K ti = (\<forall>t i. ti t = Some i \<longrightarrow> \<not> hasColumnFamily K (FamilyInfos i))"

text \<open>
  \<open>paged m keys tps\<close>: the pairs \<open>tps\<close> of a table and a page cut the key list of every
  table in \<open>keys\<close> into consecutive pages, none empty and none longer than \<open>m\<close>.
\<close>

inductive paged ::
  "nat \<Rightarrow> (string \<times> string list) list \<Rightarrow> (string \<times> string list) list \<Rightarrow> bool" for m :: nat where
  paged_Nil: "paged m [] []"
| paged_Cons:
    "concat pages = ks \<Longrightarrow> \<forall>p \<in> set pages. p \<noteq> [] \<and> length p \<le> m \<Longrightarrow> paged m rest tps \<Longrightarrow>
     paged m ((t, ks) # rest) (map (Pair t) pages @ tps)"

text \<open>The table of a chunk, when its routing succeeds, and the bytes it encodes to.\<close>

definition tableOf :: "env \<Rightarrow> Chunk \<Rightarrow> string" where
  "tableOf E c = (case ChunkTableFor E (From c) of Inl err \<Rightarrow> [] | Inr t \<Rightarrow> t)"

definition encodedOf :: "env \<Rightarrow> Chunk \<Rightarrow> bytes" where
  "encodedOf E c = (case Encoded E c of Inl err \<Rightarrow> [] | Inr buf \<Rightarrow> buf)"

text \<open>The pairs of a table and a key held by a grouping.\<close>

definition pairsOf :: "(string \<times> 'a list) list \<Rightarrow> (string \<times> 'a) list" where
  "pairsOf m = concat (map (\<lambda>(t, xs). map (Pair t) xs) m)"

text \<open>The chunk that the callback sends for a row, if it sends one.\<close>

fun taken :: "cbResult \<Rightarrow> Chunk list" where
  "taken (Continue d) = [d]"
| "taken _ = []"

text \<open>
  Every row that the store holds for a requested chunk carries the key it is stored
  under, has a cell in the chunk column family, and its first cell there decodes
  into every chunk of the request.
\<close>

definition wellStored :: "pkgConsts \<Rightarrow> env \<Rightarrow> memStore \<Rightarrow> Chunk list \<Rightarrow> bool" where
  "wellStored K E st input =
     (\<forall>c \<in> set input. \<forall>row. st (tableOf E c) (ExternalKey E c) = Some row \<longrightarrow>
        Key row = ExternalKey E c
        \<and> (\<exists>item items. cellsOf row (columnFamily K) = item # items
              \<and> (\<forall>q \<in> set input. \<exists>d. Decode E q (Value item) = Inr d)))"

text \<open>The chunks and the errors that goroutines have still to send.\<close>

fun outOf :: "action \<Rightarrow> Chunk list" where
  "outOf (SendOut c) = [c]"
| "outOf _ = []"

fun errOf :: "action \<Rightarrow> error list" where
  "errOf (SendErr e) = [e]"
| "errOf _ = []"

definition pendingOuts :: "action list list \<Rightarrow> Chunk list" where
  "pendingOuts ps = concat (map outOf (concat ps))"

definition pendingErrs :: "action list list \<Rightarrow> error list" where
  "pendingErrs ps = concat (map errOf (concat ps))"

text \<open>The work left in a running call; every step uses some of it up.\<close>

definition work :: "run \<Rightarrow> nat" where
  "work s = 2 * length (concat (procs s)) + length (outs s) + length (errs s)
            + (case main s of Gathering output \<Rightarrow> 2 | Returned r \<Rightarrow> 1 | Crashed \<Rightarrow> 0)
            + (if ctxErr s = None then 1 else 0)"

subsection \<open>Concrete inputs\<close>

definition ex_K :: pkgConsts where
  "ex_K = \<lparr>columnFamily = ''f'', column = ''c'', maxRowReads = 100\<rparr>"

definition ex_cfg :: Config where
  "ex_cfg = \<lparr>TableCacheEnabled = True, TableCacheExpiration = 30\<rparr>"

definition ex_admin0 :: memAdmin where
  "ex_admin0 = [(''chunks_a'', [''f'']), (''chunks_b'', [])]"

definition ex_admin1 :: memAdmin where
  "ex_admin1 = [(''chunks_a'', [''f'']), (''chunks_b'', [''f''])]"

definition ex_adminF :: memAdmin where
  "ex_adminF = [(''chunks_a'', [''f''])]"

definition ex_client1 :: tableClient where
  "ex_client1 = snd (ListTables ex_K (memTables ex_admin0) (memTableInfo ex_admin0) 1 1 (NewTableClient ex_cfg))"

text \<open>
  Collaborators for the examples: two tables by start time, a key made of the tenant
  and the label values, and a codec that carries the payload as it is.
\<close>

definition ex_E :: env where
  "ex_E = \<lparr>ChunkTableFor = (\<lambda>t. if t < 0 then Inl (PlainError ''no table'')
                                else if t < 1000 then Inr ''chunks_a'' else Inr ''chunks_b''),
           ExternalKey = (\<lambda>c. UserID c @ ''/'' @ concat (map snd (Metric c))),
           Encoded = (\<lambda>c. Inr (Data c)),
           Decode = (\<lambda>c buf. Inr (c\<lparr>Data := buf\<rparr>))\<rparr>"

definition ex_chunk1 :: Chunk where
  "ex_chunk1 = \<lparr>Fingerprint = 10, UserID = ''1'', From = 0, Through = 3600,
                Metric = [(''__name__'', ''up'')], Encoding = 0, Data = ''data''\<rparr>"

definition ex_chunk2 :: Chunk where
  "ex_chunk2 = \<lparr>Fingerprint = 11, UserID = ''1'', From = 2000, Through = 5600,
                Metric = [(''__name__'', ''go'')], Encoding = 0, Data = ''more''\<rparr>"

text \<open>A row with the key of \<open>ex_chunk1\<close> that has a cell in another family only.\<close>

definition ex_row_other :: Row where
  "ex_row_other = [(''g'', [\<lparr>Row = ''1/up'', Column = ''x'', Timestamp = 0, Value = ''v''\<rparr>])]"

text \<open>
  The store after \<open>PutChunks\<close> of the two example chunks on the empty store, and the
  start of \<open>GetChunks\<close> for the same two chunks against it.
\<close>

definition ex_store :: memStore where
  "ex_store = snd (PutChunks ex_K ex_E (memApplyBulk 77) [ex_chunk1, ex_chunk2] memEmpty)"

definition ex_run0 :: run where
  "ex_run0 = \<lparr>procs = [[SendOut ex_chunk1], [SendOut ex_chunk2]], outs = [], errs = [],
              cap = 2, ctxErr = None, main = Gathering []\<rparr>"

text \<open>Both sends made, then the context cancelled, with nothing gathered yet.\<close>

definition ex_run_cancelled :: run where
  "ex_run_cancelled = \<lparr>procs = [[], []], outs = [ex_chunk1, ex_chunk2], errs = [],
              cap = 2, ctxErr = Some (PlainError ''context canceled''), main = Gathering []\<rparr>"

definition ex_run_full :: run where
  "ex_run_full = \<lparr>procs = [[], []], outs = [], errs = [],
              cap = 2, ctxErr = Some (PlainError ''context canceled''),
              main = Returned (Inr [ex_chunk1, ex_chunk2])\<rparr>"

text \<open>
  The same chunk written twice on the empty store, and a chunk that is never
  written.
\<close>

definition ex_store_twice :: memStore where
  "ex_store_twice = snd (PutChunks ex_K ex_E (memApplyBulk 77) [ex_chunk1, ex_chunk1] memEmpty)"

definition ex_chunk3 :: Chunk where
  "ex_chunk3 = \<lparr>Fingerprint = 12, UserID = ''1'', From = 0, Through = 3600,
                Metric = [(''__name__'', ''no'')], Encoding = 0, Data = []\<rparr>"

text \<open>
  A call for two keys of one table whose goroutine gets one row: its start, the
  state after the chunk is sent, and the state after the error is sent and the
  gathering loop has taken it.
\<close>

definition ex_short0 :: run where
  "ex_short0 = \<lparr>procs = [[SendOut ex_chunk1, SendErr (WithStack (CountMismatch 2 1))]],
                outs = [], errs = [], cap = 2, ctxErr = None, main = Gathering []\<rparr>"

definition ex_short_sent :: run where
  "ex_short_sent = \<lparr>procs = [[SendErr (WithStack (CountMismatch 2 1))]], outs = [ex_chunk1],
                errs = [], cap = 2, ctxErr = None, main = Gathering []\<rparr>"

definition ex_short_failed :: run where
  "ex_short_failed = \<lparr>procs = [[]], outs = [ex_chunk1], errs = [], cap = 2, ctxErr = None,
                main = Returned (Inl (WithStack (CountMismatch 2 1)))\<rparr>"

text \<open>The start for the two example chunks, with the context cancelled at once.\<close>

definition ex_run_waiting :: run where
  "ex_run_waiting = ex_run0\<lparr>ctxErr := Some (PlainError ''context canceled'')\<rparr>"

section \<open>Properties\<close>

lemma CreateTable_ok:
  assumes "adminCreateTable A (desc_Name d) st = (r1, st1)"
    and "adminCreateColumnFamily A (desc_Name d) (columnFamily K) st1 = (r2, st2)"
    and "okOrExists r1" and "okOrExists r2"
  shows "CreateTable K A d st = (None, st2)"
  using assms by (auto simp: CreateTable_def okOrExists_def split: option.splits)

lemma CreateTable_error:
  assumes "fst (CreateTable K A d st) = Some e"
  shows "\<exists>e' m. e = Wrap e' m \<and> \<not> alreadyExistsError e'"
  using assms by (auto simp: CreateTable_def split: option.splits prod.splits if_splits)

lemma mem_create_first:
  "\<exists>m1 fs. CreateTable K memAdminClient d m = (None, m1) \<and> map_of m1 (desc_Name d) = Some fs
      \<and> columnFamily K \<in> set fs"
  by (auto simp: CreateTable_def memAdminClient_def update_conv' split: option.splits)

lemma mem_create_again:
  assumes "map_of m (desc_Name d) = Some fs" "columnFamily K \<in> set fs"
  shows "CreateTable K memAdminClient d m = (None, m)"
  using assms by (auto simp: CreateTable_def memAdminClient_def split: option.splits)

lemma listLoop_inv:
  "cacheLacking K ti \<Longrightarrow> listLoop K info en tables ti out = (res, ti') \<Longrightarrow> cacheLacking K ti'"
proof (induction tables arbitrary: ti out)
  case Nil
  then show ?case by simp
next
  case (Cons a ts)
  show ?case
  proof (cases "case ti a of None \<Rightarrow> info a | Some cached \<Rightarrow> if \<not> en then info a else Inr cached")
    case (Inl e)
    with Cons.prems show ?thesis by simp
  next
    case (Inr i)
    show ?thesis
    proof (cases "hasColumnFamily K (FamilyInfos i)")
      case True
      with Inr Cons.prems(2)
      have "listLoop K info en ts ti (out @ [a]) = (res, ti')" by simp
      from Cons.IH[OF Cons.prems(1) this] show ?thesis .
    next
      case False
      with Inr Cons.prems(2)
      have run: "listLoop K info en ts (ti(a \<mapsto> i)) out = (res, ti')" by simp
      from False Cons.prems(1) have "cacheLacking K (ti(a \<mapsto> i))"
        by (simp add: cacheLacking_def)
      from Cons.IH[OF this run] show ?thesis .
    qed
  qed
qed

lemma listLoop_fresh:
  "cacheLacking K ti \<Longrightarrow> listLoop K info en tables ti out = (Inr res, ti') \<Longrightarrow> t \<in> set res \<Longrightarrow>
   t \<in> set out \<or> (\<exists>i. info t = Inr i \<and> hasColumnFamily K (FamilyInfos i))"
proof (induction tables arbitrary: ti out)
  case Nil
  then show ?case by simp
next
  case (Cons a ts)
  show ?case
  proof (cases "case ti a of None \<Rightarrow> info a | Some cached \<Rightarrow> if \<not> en then info a else Inr cached")
    case (Inl e)
    with Cons.prems show ?thesis by simp
  next
    case (Inr i)
    show ?thesis
    proof (cases "hasColumnFamily K (FamilyInfos i)")
      case True
      with Inr Cons.prems(1) have fetched: "info a = Inr i"
        by (auto simp: cacheLacking_def split: option.splits if_splits)
      from True Inr Cons.prems(2)
      have "listLoop K info en ts ti (out @ [a]) = (Inr res, ti')" by simp
      from Cons.IH[OF Cons.prems(1) this Cons.prems(3)] fetched True
      show ?thesis by auto
    next
      case False
      with Inr Cons.prems(2)
      have run: "listLoop K info en ts (ti(a \<mapsto> i)) out = (Inr res, ti')" by simp
      from False Cons.prems(1) have "cacheLacking K (ti(a \<mapsto> i))"
        by (simp add: cacheLacking_def)
      from Cons.IH[OF this run Cons.prems(3)] show ?thesis .
    qed
  qed
qed

lemma ListTables_inv:
  assumes "cacheLacking K (tableInfo c)"
  shows "cacheLacking K (tableInfo (snd (ListTables K tables info n1 n2 c)))"
proof (cases tables)
  case (Inl e)
  with assms show ?thesis by (simp add: ListTables_def)
next
  case (Inr ts)
  define c1 where "c1 = (if tableExpiration c < n1
                     then c\<lparr>tableInfo := Map.empty,
                            tableExpiration := n2 + TableCacheExpiration (cfg c)\<rparr>
                     else c)"
  have inv: "cacheLacking K (tableInfo c1)"
    using assms by (simp add: c1_def cacheLacking_def)
  obtain res ti where run:
    "listLoop K info (TableCacheEnabled (cfg c1)) ts (tableInfo c1) [] = (res, ti)"
    by (cases "listLoop K info (TableCacheEnabled (cfg c1)) ts (tableInfo c1) []") auto
  from listLoop_inv[OF inv run] have "cacheLacking K ti" .
  with run Inr show ?thesis by (simp add: ListTables_def Let_def c1_def)
qed

lemma reachable_cacheLacking: "reachable K c \<Longrightarrow> cacheLacking K (tableInfo c)"
proof (induction rule: reachable.induct)
  case (r_new c0)
  show ?case by (simp add: NewTableClient_def cacheLacking_def)
next
  case (r_list c tables info now1 now2)
  from r_list.IH show ?case by (rule ListTables_inv)
next
  case (r_delete c deleted name)
  then show ?case
    by (auto simp: DeleteTable_def cacheLacking_def split: option.splits if_splits)
qed

text \<open>
  Claim C4.  In every state a table client can reach, with any answers of the store
  and any clock (so also right after the cache expiration has passed), every table
  that a successful \<open>ListTables\<close> returns carries the required column family in the
  metadata that the store gives for it during this very call.
\<close>

theorem ListTables_returns_only_tables_with_family:
  assumes "reachable K c" and "ListTables K tables info now1 now2 c = (Inr out, c')"
    and "t \<in> set out"
  shows "\<exists>i. info t = Inr i \<and> hasColumnFamily K (FamilyInfos i)"
proof -
  from assms(2) obtain ts where ts: "tables = Inr ts"
    by (cases tables) (auto simp: ListTables_def)
  define c1 where "c1 = (if tableExpiration c < now1
                     then c\<lparr>tableInfo := Map.empty,
                            tableExpiration := now2 + TableCacheExpiration (cfg c)\<rparr>
                     else c)"
  have inv: "cacheLacking K (tableInfo c1)"
    using reachable_cacheLacking[OF assms(1)] by (simp add: c1_def cacheLacking_def)
  from assms(2) ts obtain ti where
    "listLoop K info (TableCacheEnabled (cfg c1)) ts (tableInfo c1) [] = (Inr out, ti)"
    by (auto simp: ListTables_def Let_def c1_def split: prod.splits)
  from listLoop_fresh[OF inv this assms(3)] show ?thesis by simp
qed


lemma first_list:
  "ListTables ex_K (memTables ex_admin0) (memTableInfo ex_admin0) 1 1 (NewTableClient ex_cfg) =
     (Inr [''chunks_a''],
      \<lparr>cfg = ex_cfg,
       tableInfo = [''chunks_b'' \<mapsto> \<lparr>Families = [], FamilyInfos = []\<rparr>],
       tableExpiration = 31\<rparr>)"
  by (simp add: ListTables_def NewTableClient_def memTables_def memTableInfo_def ex_admin0_def
      ex_K_def ex_cfg_def memFamilyInfos_def)

text \<open>
  Claim C3.  The claim asks that after a successful \<open>ListTables\<close> the cache holds the
  tables found to have the required column family as well as those lacking it.
  On a new client and a store with \<open>chunks_a\<close> (with the family) and \<open>chunks_b\<close>
  (without), the call returns \<open>chunks_a\<close> alone, caches \<open>chunks_b\<close>, and leaves
  \<open>chunks_a\<close> out of the cache: the \<open>continue\<close> after the append skips the cache write.
\<close>

theorem ListTables_leaves_tables_with_family_uncached:
  "fst (ListTables ex_K (memTables ex_admin0) (memTableInfo ex_admin0) 1 1 (NewTableClient ex_cfg)) = Inr [''chunks_a'']
   \<and> tableInfo (snd (ListTables ex_K (memTables ex_admin0) (memTableInfo ex_admin0) 1 1 (NewTableClient ex_cfg)))
        ''chunks_a'' = None
   \<and> tableInfo (snd (ListTables ex_K (memTables ex_admin0) (memTableInfo ex_admin0) 1 1 (NewTableClient ex_cfg)))
        ''chunks_b'' = Some \<lparr>Families = [], FamilyInfos = []\<rparr>"
  by (simp add: first_list)

lemma second_list:
  "fst (ListTables ex_K (memTables ex_admin1) (memTableInfo ex_admin1) 2 2 ex_client1) = Inr [''chunks_a'']"
  by (simp add: ex_client1_def first_list)
     (simp add: ListTables_def memTables_def memTableInfo_def ex_admin1_def
      ex_K_def ex_cfg_def memFamilyInfos_def)

theorem ListTables_returns_only_tables_with_family_witness:
  "reachable ex_K ex_client1
   \<and> fst (ListTables ex_K (memTables ex_admin1) (memTableInfo ex_admin1) 2 2 ex_client1) = Inr [''chunks_a'']
   \<and> (\<exists>i. memTableInfo ex_admin1 ''chunks_a'' = Inr i \<and> hasColumnFamily ex_K (FamilyInfos i))"
proof -
  have r: "reachable ex_K ex_client1"
    unfolding ex_client1_def by (rule r_list) (rule r_new)
  have l: "ListTables ex_K (memTables ex_admin1) (memTableInfo ex_admin1) 2 2 ex_client1 =
      (Inr [''chunks_a''], snd (ListTables ex_K (memTables ex_admin1) (memTableInfo ex_admin1) 2 2 ex_client1))"
    using second_list by (metis prod.collapse)
  have m: "''chunks_a'' \<in> set [''chunks_a'']" by simp
  from ListTables_returns_only_tables_with_family[OF r l m] r second_list show ?thesis by simp
qed

text \<open>
  Claim C5.  \<open>CreateTable\<close> is idempotent.  When the store answers either step with
  success or with "already exists", the call returns nil; an error that the call
  does return wraps an answer of the store that is not "already exists"; and on
  the in-memory store two calls in a row for the same table both return nil.
\<close>

theorem CreateTable_idempotent:
  "(okOrExists (fst (adminCreateTable A (desc_Name d) st)) \<and>
    okOrExists (fst (adminCreateColumnFamily A (desc_Name d) (columnFamily K)
                       (snd (adminCreateTable A (desc_Name d) st))))
      \<longrightarrow> fst (CreateTable K A d st) = None)
   \<and> (\<forall>e. fst (CreateTable K A d st) = Some e \<longrightarrow> (\<exists>e' m. e = Wrap e' m \<and> \<not> alreadyExistsError e'))
   \<and> fst (CreateTable K memAdminClient d m) = None
   \<and> fst (CreateTable K memAdminClient d (snd (CreateTable K memAdminClient d m))) = None"
proof (intro conjI impI allI)
  assume "okOrExists (fst (adminCreateTable A (desc_Name d) st)) \<and>
    okOrExists (fst (adminCreateColumnFamily A (desc_Name d) (columnFamily K)
                       (snd (adminCreateTable A (desc_Name d) st))))"
  then show "fst (CreateTable K A d st) = None"
    using CreateTable_ok[of A d st "fst (adminCreateTable A (desc_Name d) st)"
        "snd (adminCreateTable A (desc_Name d) st)" K
        "fst (adminCreateColumnFamily A (desc_Name d) (columnFamily K)
                       (snd (adminCreateTable A (desc_Name d) st)))"
        "snd (adminCreateColumnFamily A (desc_Name d) (columnFamily K)
                       (snd (adminCreateTable A (desc_Name d) st)))"]
    by simp
next
  fix e assume "fst (CreateTable K A d st) = Some e"
  then show "\<exists>e' m. e = Wrap e' m \<and> \<not> alreadyExistsError e'" by (rule CreateTable_error)
next
  from mem_create_first[of K d m] show "fst (CreateTable K memAdminClient d m) = None" by auto
next
  from mem_create_first[of K d m] obtain m1 fs where
    "CreateTable K memAdminClient d m = (None, m1)" "map_of m1 (desc_Name d) = Some fs"
    "columnFamily K \<in> set fs" by blast
  then show "fst (CreateTable K memAdminClient d (snd (CreateTable K memAdminClient d m))) = None"
    using mem_create_again[of m1 d fs K] by simp
qed

theorem CreateTable_idempotent_witness:
  "okOrExists (fst (adminCreateTable memAdminClient ''chunks_a'' ex_adminF))
   \<and> okOrExists (fst (adminCreateColumnFamily memAdminClient ''chunks_a'' ''f''
                       (snd (adminCreateTable memAdminClient ''chunks_a'' ex_adminF))))
   \<and> fst (CreateTable ex_K memAdminClient \<lparr>desc_Name = ''chunks_a''\<rparr> ex_adminF) = None"
proof -
  have a: "okOrExists (fst (adminCreateTable memAdminClient ''chunks_a'' ex_adminF))"
    by (simp add: memAdminClient_def ex_adminF_def okOrExists_def)
  have b: "okOrExists (fst (adminCreateColumnFamily memAdminClient ''chunks_a'' ''f''
                       (snd (adminCreateTable memAdminClient ''chunks_a'' ex_adminF))))"
    by (simp add: memAdminClient_def ex_adminF_def okOrExists_def)
  from CreateTable_idempotent[of memAdminClient "\<lparr>desc_Name = ''chunks_a''\<rparr>" ex_adminF ex_K] a b
  show ?thesis by (simp add: ex_K_def)
qed

lemma char_eq_nat: "(c = d) = ((of_char c :: nat) = of_char d)"
  by simp

lemma hex_digits: "''0123456789abcdef'' = map hexDigit [0..<16]"
  by (simp add: hexDigit_def char_eq_nat upt_rec)

lemma isHex_iff: "isHex c \<longleftrightarrow> (\<exists>n<16. c = hexDigit n)"
  unfolding isHex_def hex_digits by auto

lemma isHex_hexDigit: "n < 16 \<Longrightarrow> isHex (hexDigit n)"
  by (auto simp: isHex_iff)

lemma isHex_ex: "isHex c \<Longrightarrow> \<exists>n<16. c = hexDigit n"
  by (simp add: isHex_iff)

lemma hexDigit_of_char:
  "n < 16 \<Longrightarrow> (of_char (hexDigit n) :: nat) = (if n < 10 then 48 + n else 87 + n)"
  by (simp add: hexDigit_def)

lemma hexDigit_inj: "m < 16 \<Longrightarrow> n < 16 \<Longrightarrow> hexDigit m = hexDigit n \<Longrightarrow> m = n"
  by (simp add: char_eq_nat hexDigit_of_char split: if_splits)

lemma hexDigit_zero: "n < 16 \<Longrightarrow> (hexDigit n = CHR ''0'') = (n = 0)"
  by (simp add: char_eq_nat[of _ "CHR ''0''"] hexDigit_of_char)

text \<open>the prefix of a shard\<close>

lemma shardPrefix_alt:
  "shardPrefix shard = [hexDigit (Suc (shard div 16)), hexDigit (shard mod 16)]"
proof -
  have "(shard + 16) div 16 = Suc (shard div 16)" by linarith
  then show ?thesis by (simp add: shardPrefix_def)
qed

lemma shard_digits:
  "shard < 240 \<Longrightarrow> Suc (shard div 16) < 16 \<and> shard mod 16 < 16"
  by (auto simp: div_less_iff_less_mult)

lemma shardPrefix_valid: "shard < 240 \<Longrightarrow> validPrefix (shardPrefix shard)"
  using shard_digits[of shard]
  by (simp add: validPrefix_def shardPrefix_alt isHex_hexDigit hexDigit_zero)

lemma shardPrefix_inj:
  assumes "s < 240" "t < 240" "shardPrefix s = shardPrefix t"
  shows "s = t"
proof -
  from assms(3) have "hexDigit (Suc (s div 16)) = hexDigit (Suc (t div 16))"
    and "hexDigit (s mod 16) = hexDigit (t mod 16)"
    by (simp_all add: shardPrefix_alt)
  with shard_digits[OF assms(1)] shard_digits[OF assms(2)]
  have "Suc (s div 16) = Suc (t div 16)" "s mod 16 = t mod 16"
    using hexDigit_inj[of "Suc (s div 16)" "Suc (t div 16)"]
      hexDigit_inj[of "s mod 16" "t mod 16"] by blast+
  then show ?thesis by (metis div_mult_mod_eq nat.inject)
qed

lemma shardPrefix_surj:
  assumes "validPrefix p"
  shows "\<exists>shard<240. shardPrefix shard = p"
proof -
  from assms obtain a b where p: "p = [a, b]" and a: "isHex a" "a \<noteq> CHR ''0''" and b: "isHex b"
    by (auto simp: validPrefix_def split: list.splits)
  from a(1) obtain m where m: "m < 16" "a = hexDigit m" using isHex_ex by blast
  from b obtain n where n: "n < 16" "b = hexDigit n" using isHex_ex by blast
  from a(2) m have m0: "0 < m" using hexDigit_zero[of m] by auto
  define shard where "shard = (m - 1) * 16 + n"
  have "shard div 16 = m - 1" "shard mod 16 = n" using n(1) by (simp_all add: shard_def)
  moreover have "shard < 240" using m(1) n(1) m0 by (simp add: shard_def)
  ultimately show ?thesis using p m n m0 by (auto simp: shardPrefix_alt)
qed

lemma shard_bij: "bij_betw shardPrefix {0..<240} {p. validPrefix p}"
  unfolding bij_betw_def
proof
  show "inj_on shardPrefix {0..<240}"
    by (auto simp: inj_on_def dest: shardPrefix_inj)
  show "shardPrefix ` {0..<240} = {p. validPrefix p}"
  proof (intro set_eqI iffI)
    fix p assume "p \<in> shardPrefix ` {0..<240}"
    then show "p \<in> {p. validPrefix p}" using shardPrefix_valid by auto
  next
    fix p assume "p \<in> {p. validPrefix p}"
    then obtain shard where "shard < 240" "shardPrefix shard = p"
      using shardPrefix_surj by blast
    then show "p \<in> shardPrefix ` {0..<240}" by (auto simp: image_iff intro!: bexI[of _ shard])
  qed
qed

text \<open>ranges\<close>

lemma hexDigit_succ:
  "n < 16 \<Longrightarrow> prefixSuccessor [a, hexDigit n] = [a, char_of (Suc (of_char (hexDigit n)))]"
  by (simp add: prefixSuccessor_def hexDigit_of_char)

lemma char_less_succ:
  "(of_char b :: nat) < 255 \<Longrightarrow> c < char_of (Suc (of_char b)) \<longleftrightarrow> c \<le> b"
  by (auto simp: less_char_def less_eq_char_def)

lemma inRange_shard:
  assumes "shard < 240"
  shows "inRange (shardRange shard) key \<longleftrightarrow> take 2 key = shardPrefix shard"
proof -
  define a where "a = hexDigit (Suc (shard div 16))"
  define b where "b = hexDigit (shard mod 16)"
  have pre: "shardPrefix shard = [a, b]" by (simp add: shardPrefix_alt a_def b_def)
  have lo: "shard mod 16 < 16" by simp
  have "(of_char b :: nat) = (if shard mod 16 < 10 then 48 + shard mod 16 else 87 + shard mod 16)"
    unfolding b_def using lo by (rule hexDigit_of_char)
  with lo have b255: "(of_char b :: nat) < 255" by presburger
  have suc: "prefixSuccessor [a, b] = [a, char_of (Suc (of_char b))]"
    unfolding b_def using lo by (rule hexDigit_succ)
  show ?thesis
  proof (cases key)
    case Nil
    then show ?thesis by (simp add: inRange_def shardRange_def pre)
  next
    case (Cons c1 r1)
    show ?thesis
    proof (cases r1)
      case Nil
      with Cons show ?thesis by (auto simp: inRange_def shardRange_def pre suc)
    next
      case (Cons c2 rest)
      with \<open>key = c1 # r1\<close> show ?thesis
        using b255 by (auto simp: inRange_def shardRange_def pre suc char_less_succ)
    qed
  qed
qed

text \<open>
  Claim C6.  The shards \<open>0..239\<close> are mapped one-to-one onto the two-character
  hexadecimal prefixes that do not begin with \<open>0\<close>; every row key that begins with
  such a prefix lies in the range of exactly one shard; and a key in the range of a
  shard begins with the prefix of that shard, so the ranges neither overlap nor
  leave a gap.
\<close>

theorem shards_partition_keyspace:
  "bij_betw shardPrefix {0..<240} {p. validPrefix p}
   \<and> (\<forall>key. validPrefix (take 2 key) \<longrightarrow> (\<exists>!shard. shard < 240 \<and> inRange (shardRange shard) key))
   \<and> (\<forall>shard key. shard < 240 \<and> inRange (shardRange shard) key \<longrightarrow> take 2 key = shardPrefix shard)"
proof (intro conjI allI impI)
  show "bij_betw shardPrefix {0..<240} {p. validPrefix p}" by (rule shard_bij)
next
  fix key assume v: "validPrefix (take 2 key)"
  then obtain shard where s: "shard < 240" "shardPrefix shard = take 2 key"
    using shardPrefix_surj by blast
  show "\<exists>!shard. shard < 240 \<and> inRange (shardRange shard) key"
  proof (rule ex1I[of _ shard])
    show "shard < 240 \<and> inRange (shardRange shard) key" using s by (simp add: inRange_shard)
  next
    fix t assume "t < 240 \<and> inRange (shardRange t) key"
    then have t: "t < 240" and "inRange (shardRange t) key" by simp_all
    then have "shardPrefix t = shardPrefix shard" using s by (simp add: inRange_shard)
    with t s(1) show "t = shard" by (rule shardPrefix_inj)
  qed
next
  fix shard key assume "shard < 240 \<and> inRange (shardRange shard) key"
  then show "take 2 key = shardPrefix shard" by (auto simp: inRange_shard)
qed

theorem shards_partition_keyspace_witness:
  "validPrefix (take 2 ''ab3f/0:3600:17'')
   \<and> (\<exists>!shard. shard < 240 \<and> inRange (shardRange shard) ''ab3f/0:3600:17'')
   \<and> (155::nat) < 240 \<and> inRange (shardRange 155) ''ab3f/0:3600:17''
   \<and> take 2 ''ab3f/0:3600:17'' = shardPrefix 155"
proof -
  have v: "validPrefix (take 2 ''ab3f/0:3600:17'')"
    by (simp add: validPrefix_def isHex_def)
  have p: "shardPrefix 155 = ''ab''"
    by (simp add: shardPrefix_def hexDigit_def char_eq_nat)
  have r: "inRange (shardRange 155) ''ab3f/0:3600:17''"
    by (simp add: inRange_def shardRange_def p prefixSuccessor_def char_eq_nat less_char_def)
  from shards_partition_keyspace v r p show ?thesis by simp
qed

subsection \<open>Bookkeeping of a running call\<close>

lemma pendingOuts_Nil [simp]: "pendingOuts [] = []"
  by (simp add: pendingOuts_def)

lemma pendingOuts_Cons [simp]: "pendingOuts (p # ps) = concat (map outOf p) @ pendingOuts ps"
  by (simp add: pendingOuts_def)

lemma pendingOuts_append [simp]: "pendingOuts (ps @ qs) = pendingOuts ps @ pendingOuts qs"
  by (simp add: pendingOuts_def)

lemma pendingErrs_Nil [simp]: "pendingErrs [] = []"
  by (simp add: pendingErrs_def)

lemma pendingErrs_Cons [simp]: "pendingErrs (p # ps) = concat (map errOf p) @ pendingErrs ps"
  by (simp add: pendingErrs_def)

lemma pendingErrs_append [simp]: "pendingErrs (ps @ qs) = pendingErrs ps @ pendingErrs qs"
  by (simp add: pendingErrs_def)

lemma concat_update_mset:
  "j < length ps \<Longrightarrow> ps ! j = a # rest \<Longrightarrow> mset (concat (ps[j := rest])) + {#a#} = mset (concat ps)"
proof (induction ps arbitrary: j)
  case Nil
  then show ?case by simp
next
  case (Cons p ps)
  then show ?case by (cases j) auto
qed

lemma concat_update_length:
  "j < length ps \<Longrightarrow> ps ! j = a # rest \<Longrightarrow> Suc (length (concat (ps[j := rest]))) = length (concat ps)"
  using concat_update_mset[of j ps a rest, THEN arg_cong[of _ _ size]] by simp

lemma pendingOuts_update:
  "j < length ps \<Longrightarrow> ps ! j = a # rest \<Longrightarrow>
   mset (pendingOuts (ps[j := rest])) + mset (outOf a) = mset (pendingOuts ps)"
proof (induction ps arbitrary: j)
  case Nil
  then show ?case by simp
next
  case (Cons p ps)
  then show ?case by (cases j) auto
qed

lemma pendingErrs_update:
  "j < length ps \<Longrightarrow> ps ! j = a # rest \<Longrightarrow>
   mset (pendingErrs (ps[j := rest])) + mset (errOf a) = mset (pendingErrs ps)"
proof (induction ps arbitrary: j)
  case Nil
  then show ?case by simp
next
  case (Cons p ps)
  then show ?case by (cases j) auto
qed

lemma pendingOuts_update_length:
  "j < length ps \<Longrightarrow> ps ! j = a # rest \<Longrightarrow>
   length (pendingOuts (ps[j := rest])) + length (outOf a) = length (pendingOuts ps)"
  using pendingOuts_update[of j ps a rest, THEN arg_cong[of _ _ size]] by simp

lemma pendingErrs_update_length:
  "j < length ps \<Longrightarrow> ps ! j = a # rest \<Longrightarrow>
   length (pendingErrs (ps[j := rest])) + length (errOf a) = length (pendingErrs ps)"
  using pendingErrs_update[of j ps a rest, THEN arg_cong[of _ _ size]] by simp

lemma pendingErrs_update_set:
  "j < length ps \<Longrightarrow> ps ! j = a # rest \<Longrightarrow>
   set (pendingErrs (ps[j := rest])) \<union> set (errOf a) = set (pendingErrs ps)"
  using pendingErrs_update[of j ps a rest, THEN arg_cong[of _ _ set_mset]] by simp

subsection \<open>One step\<close>

lemma step_cap: "step s s' \<Longrightarrow> cap s' = cap s"
  by (erule step.cases) simp_all

lemma step_work: "step s s' \<Longrightarrow> work s' < work s"
proof (erule step.cases)
qed (auto simp: work_def dest: concat_update_length split: gather.splits)

lemma step_ctx: "step s s' \<Longrightarrow> ctxErr s = Some e \<Longrightarrow> ctxErr s' = Some e"
  by (erule step.cases) simp_all

lemma step_outs_bound:
  "step s s' \<Longrightarrow> length (outs s') + length (pendingOuts (procs s'))
      \<le> length (outs s) + length (pendingOuts (procs s))"
  by (erule step.cases) (auto dest: pendingOuts_update_length)

lemma step_errs_bound:
  "step s s' \<Longrightarrow> length (errs s') + length (pendingErrs (procs s'))
      \<le> length (errs s) + length (pendingErrs (procs s))"
  by (erule step.cases) (auto dest: pendingErrs_update_length)

lemma step_errs_origin:
  "step s s' \<Longrightarrow> set (errs s') \<union> set (pendingErrs (procs s'))
      \<subseteq> set (errs s) \<union> set (pendingErrs (procs s))"
proof (induction rule: step.induct)
  case (send_out s j c rest)
  from pendingErrs_update_set[OF send_out(2,3)] show ?case by auto
next
  case (send_err s j e rest)
  from pendingErrs_update_set[OF send_err(2,3)] show ?case by auto
qed auto

subsection \<open>Runs\<close>

lemma steps_cap: "steps s0 s \<Longrightarrow> cap s = cap s0"
  by (induction rule: rtranclp_induct) (simp_all add: step_cap)

lemma steps_ctx: "steps s0 s \<Longrightarrow> ctxErr s0 = Some e \<Longrightarrow> ctxErr s = Some e"
  by (induction rule: rtranclp_induct) (simp_all add: step_ctx)

lemma steps_outs_bound:
  "steps s0 s \<Longrightarrow> length (outs s) + length (pendingOuts (procs s))
      \<le> length (outs s0) + length (pendingOuts (procs s0))"
  by (induction rule: rtranclp_induct) (auto dest: step_outs_bound)

lemma steps_errs_bound:
  "steps s0 s \<Longrightarrow> length (errs s) + length (pendingErrs (procs s))
      \<le> length (errs s0) + length (pendingErrs (procs s0))"
  by (induction rule: rtranclp_induct) (auto dest: step_errs_bound)

lemma steps_errs_origin:
  "steps s0 s \<Longrightarrow> set (errs s) \<union> set (pendingErrs (procs s))
      \<subseteq> set (errs s0) \<union> set (pendingErrs (procs s0))"
  by (induction rule: rtranclp_induct) (auto dest: step_errs_origin)

text \<open>No run goes on for ever.\<close>

lemma step_wf: "wf {(s', s). step s s'}"
  by (rule wf_subset[OF wf_measure[of work]]) (auto dest: step_work)

text \<open>What has been gathered, with what is buffered and what is still to be sent.\<close>

lemma step_conserve:
  assumes "step s s'"
    and "\<forall>out. main s = Gathering out \<or> main s = Returned (Inr out) \<longrightarrow>
           mset out + mset (outs s) + mset (pendingOuts (procs s)) = T"
    and "\<forall>out. main s = Gathering out \<longrightarrow> length out \<le> cap s"
  shows "(\<forall>out. main s' = Gathering out \<or> main s' = Returned (Inr out) \<longrightarrow>
           mset out + mset (outs s') + mset (pendingOuts (procs s')) = T)
       \<and> (\<forall>out. main s' = Gathering out \<longrightarrow> length out \<le> cap s')
       \<and> (\<forall>out. main s' = Returned (Inr out) \<longrightarrow>
             main s = Returned (Inr out) \<or> (main s = Gathering out \<and> length out = cap s))"
  using assms
proof (induction rule: step.induct)
  case (send_out s j c rest)
  from pendingOuts_update[OF send_out(2,3)] send_out(5,6) show ?case
    by (auto simp: add.assoc add.commute add.left_commute)
next
  case (send_err s j e rest)
  from pendingOuts_update[OF send_err(2,3)] send_err(5,6) show ?case by auto
qed auto

lemma steps_conserve:
  assumes "steps s0 s" and "main s0 = Gathering []" and "outs s0 = []"
  shows "(\<forall>out. main s = Gathering out \<or> main s = Returned (Inr out) \<longrightarrow>
           mset out + mset (outs s) + mset (pendingOuts (procs s)) = mset (pendingOuts (procs s0)))
       \<and> (\<forall>out. main s = Gathering out \<longrightarrow> length out \<le> cap s)
       \<and> (\<forall>out. main s = Returned (Inr out) \<longrightarrow> length out = cap s)"
  using assms
proof (induction rule: rtranclp_induct)
  case base
  then show ?case by simp
next
  case (step y z)
  from step.IH[OF step.prems] have
    c: "\<forall>out. main y = Gathering out \<or> main y = Returned (Inr out) \<longrightarrow>
           mset out + mset (outs y) + mset (pendingOuts (procs y)) = mset (pendingOuts (procs s0))"
    and g: "\<forall>out. main y = Gathering out \<longrightarrow> length out \<le> cap y"
    and r: "\<forall>out. main y = Returned (Inr out) \<longrightarrow> length out = cap y"
    by blast+
  from step_conserve[OF step.hyps(2) c g] r step_cap[OF step.hyps(2)]
  show ?case by metis
qed

lemma steps_returned_err:
  assumes "steps s0 s" and "main s0 = Gathering []" and "errs s0 = []"
    and "main s = Returned (Inl e)"
  shows "e \<in> set (pendingErrs (procs s0)) \<or> ctxErr s = Some e"
  using assms
proof (induction arbitrary: e rule: rtranclp_induct)
  case base
  then show ?case by simp
next
  case (step y z)
  from steps_errs_origin[OF step.hyps(1)] step.prems(2)
  have origin: "set (errs y) \<subseteq> set (pendingErrs (procs s0))" by auto
  from step.hyps(2) step.prems(3) origin step.IH[OF step.prems(1,2)]
  show ?case
    by (induction rule: step.induct) auto
qed

text \<open>
  A gathering loop that waits can always be served: there are enough chunks on the
  way, or an error, or a panic.
\<close>

lemma step_served:
  assumes "step s s'"
    and "\<forall>out. main s = Gathering out \<longrightarrow>
           cap s \<le> length out + length (outs s) + length (pendingOuts (procs s))
           \<or> errs s \<noteq> [] \<or> pendingErrs (procs s) \<noteq> [] \<or> Panic \<in> set (concat (procs s))"
  shows "\<forall>out. main s' = Gathering out \<longrightarrow>
           cap s' \<le> length out + length (outs s') + length (pendingOuts (procs s'))
           \<or> errs s' \<noteq> [] \<or> pendingErrs (procs s') \<noteq> [] \<or> Panic \<in> set (concat (procs s'))"
  using assms
proof (induction rule: step.induct)
  case (send_out s j c rest)
  from concat_update_mset[OF send_out(2,3), THEN arg_cong[of _ _ set_mset]]
  have p: "Panic \<in> set (concat ((procs s)[j := rest])) \<longleftrightarrow> Panic \<in> set (concat (procs s))"
    by auto
  from pendingErrs_update[OF send_out(2,3)]
  have e: "pendingErrs ((procs s)[j := rest]) = [] \<longleftrightarrow> pendingErrs (procs s) = []"
    by (metis add.right_neutral errOf.simps(2) mset.simps(1) mset_zero_iff)
  from pendingOuts_update_length[OF send_out(2,3)]
  have o: "Suc (length (pendingOuts ((procs s)[j := rest]))) = length (pendingOuts (procs s))"
    by simp
  show ?case
  proof (intro allI impI)
    fix out assume "main (s\<lparr>procs := (procs s)[j := rest], outs := outs s @ [c]\<rparr>) = Gathering out"
    then have "main s = Gathering out" by simp
    with send_out(5) p e o
    show "cap (s\<lparr>procs := (procs s)[j := rest], outs := outs s @ [c]\<rparr>)
            \<le> length out + length (outs (s\<lparr>procs := (procs s)[j := rest], outs := outs s @ [c]\<rparr>))
              + length (pendingOuts (procs (s\<lparr>procs := (procs s)[j := rest], outs := outs s @ [c]\<rparr>)))
          \<or> errs (s\<lparr>procs := (procs s)[j := rest], outs := outs s @ [c]\<rparr>) \<noteq> []
          \<or> pendingErrs (procs (s\<lparr>procs := (procs s)[j := rest], outs := outs s @ [c]\<rparr>)) \<noteq> []
          \<or> Panic \<in> set (concat (procs (s\<lparr>procs := (procs s)[j := rest], outs := outs s @ [c]\<rparr>)))"
      by simp linarith
  qed
next
  case (send_err s j e rest)
  then show ?case by simp
qed auto

lemma steps_served:
  assumes "steps s0 s"
    and "cap s0 \<le> length (pendingOuts (procs s0)) \<or> pendingErrs (procs s0) \<noteq> []
         \<or> Panic \<in> set (concat (procs s0))"
    and "main s = Gathering out"
  shows "cap s \<le> length out + length (outs s) + length (pendingOuts (procs s))
           \<or> errs s \<noteq> [] \<or> pendingErrs (procs s) \<noteq> [] \<or> Panic \<in> set (concat (procs s))"
  using assms
proof (induction arbitrary: out rule: rtranclp_induct)
  case base
  then show ?case by auto
next
  case (step y z)
  have "\<forall>out. main y = Gathering out \<longrightarrow>
           cap y \<le> length out + length (outs y) + length (pendingOuts (procs y))
           \<or> errs y \<noteq> [] \<or> pendingErrs (procs y) \<noteq> [] \<or> Panic \<in> set (concat (procs y))"
    using step.IH[OF step.prems(1)] by blast
  from step_served[OF step.hyps(2) this] step.prems(2) show ?case by blast
qed

text \<open>A step of the program itself, which leaves the context as it is.\<close>

lemma gathering_can_step:
  assumes "main s = Gathering out"
    and "cap s \<le> length out + length (outs s) + length (pendingOuts (procs s))
           \<or> errs s \<noteq> [] \<or> pendingErrs (procs s) \<noteq> [] \<or> Panic \<in> set (concat (procs s))"
  shows "\<exists>s'. step s s' \<and> ctxErr s' = ctxErr s"
proof (cases "length out < cap s")
  case False
  with assms(1) have "step s (s\<lparr>main := Returned (Inr out)\<rparr>)" by (rule finish)
  then show ?thesis by (intro exI[of _ "s\<lparr>main := Returned (Inr out)\<rparr>"]) simp
next
  case room: True
  show ?thesis
  proof (cases "outs s")
    case (Cons c cs)
    with assms(1) room have "step s (s\<lparr>outs := cs, main := Gathering (out @ [c])\<rparr>)"
      by (intro recv_out)
    then show ?thesis by (intro exI[of _ "s\<lparr>outs := cs, main := Gathering (out @ [c])\<rparr>"]) simp
  next
    case no_outs: Nil
    show ?thesis
    proof (cases "errs s")
      case (Cons e es)
      with assms(1) room have "step s (s\<lparr>errs := es, main := Returned (Inl e)\<rparr>)"
        by (intro recv_err)
      then show ?thesis by (intro exI[of _ "s\<lparr>errs := es, main := Returned (Inl e)\<rparr>"]) simp
    next
      case no_errs: Nil
      have "concat (procs s) \<noteq> []"
      proof
        assume "concat (procs s) = []"
        with assms(2) room no_outs no_errs show False
          by (simp add: pendingOuts_def pendingErrs_def)
      qed
      then obtain p where "p \<in> set (procs s)" "p \<noteq> []" by auto
      then obtain j a rest where j: "j < length (procs s)" "procs s ! j = a # rest"
        by (metis in_set_conv_nth neq_Nil_conv)
      from assms(1) have live: "main s \<noteq> Crashed" by simp
      show ?thesis
      proof (cases a)
        case (SendOut c)
        with j live room no_outs
        have "step s (s\<lparr>procs := (procs s)[j := rest], outs := outs s @ [c]\<rparr>)"
          by (intro send_out) auto
        then show ?thesis
          by (intro exI[of _ "s\<lparr>procs := (procs s)[j := rest], outs := outs s @ [c]\<rparr>"]) simp
      next
        case (SendErr e)
        with j live room no_errs
        have "step s (s\<lparr>procs := (procs s)[j := rest], errs := errs s @ [e]\<rparr>)"
          by (intro send_err) auto
        then show ?thesis
          by (intro exI[of _ "s\<lparr>procs := (procs s)[j := rest], errs := errs s @ [e]\<rparr>"]) simp
      next
        case Panic
        with j live have "step s (s\<lparr>main := Crashed\<rparr>)" by (intro panic) auto
        then show ?thesis by (intro exI[of _ "s\<lparr>main := Crashed\<rparr>"]) simp
      qed
    qed
  qed
qed

subsection \<open>Paging\<close>

lemma slice_page: "i < length keys \<Longrightarrow> slice keys i (min (i + m) (length keys)) = take m (drop i keys)"
  by (auto simp: slice_def min_def)

lemma pageLoop_Some:
  assumes "0 < m"
  shows "\<exists>pages. pageLoop m keys i = Some pages \<and> concat pages = drop i keys
           \<and> (\<forall>p \<in> set pages. p \<noteq> [] \<and> length p \<le> m)"
proof (induction "length keys - i" arbitrary: i rule: less_induct)
  case less
  show ?case
  proof (cases "i < length keys")
    case True
    with assms have "length keys - (i + m) < length keys - i" by simp
    from less[OF this] obtain pages where p: "pageLoop m keys (i + m) = Some pages"
      "concat pages = drop (i + m) keys" "\<forall>p \<in> set pages. p \<noteq> [] \<and> length p \<le> m"
      by blast
    have "pageLoop m keys i = Some (take m (drop i keys) # pages)"
      by (subst pageLoop.simps) (simp add: True p(1) slice_page)
    moreover have "take m (drop i keys) @ drop (i + m) keys = drop i keys"
      by (metis add.commute append_take_drop_id drop_drop)
    moreover have "take m (drop i keys) \<noteq> []" using True assms by simp
    ultimately show ?thesis using p(2,3) by simp
  next
    case False
    then have "pageLoop m keys i = Some []" by (subst pageLoop.simps) simp
    with False show ?thesis by simp
  qed
qed

lemma spawnAll_paged:
  assumes "0 < maxRowReads K"
  shows "\<exists>tps. spawnAll K E readRows chunks keys
              = Some (map (\<lambda>(t, page). goroutine K E readRows chunks t page) tps)
           \<and> paged (maxRowReads K) keys tps"
proof (induction keys)
  case Nil
  show ?case by (auto intro: paged_Nil)
next
  case (Cons entry rest)
  obtain t ks where entry: "entry = (t, ks)" by (cases entry)
  from Cons obtain tps where tps:
    "spawnAll K E readRows chunks rest = Some (map (\<lambda>(t, page). goroutine K E readRows chunks t page) tps)"
    "paged (maxRowReads K) rest tps" by blast
  from pageLoop_Some[OF assms, of ks 0] obtain pages where pages:
    "pageLoop (maxRowReads K) ks 0 = Some pages" "concat pages = ks"
    "\<forall>p \<in> set pages. p \<noteq> [] \<and> length p \<le> maxRowReads K" by auto
  have "paged (maxRowReads K) ((t, ks) # rest) (map (Pair t) pages @ tps)"
    using pages(2,3) tps(2) by (rule paged_Cons)
  moreover have "spawnAll K E readRows chunks ((t, ks) # rest)
      = Some (map (\<lambda>(t, page). goroutine K E readRows chunks t page) (map (Pair t) pages @ tps))"
    by (simp add: pages(1) tps(1) comp_def)
  ultimately show ?case unfolding entry by blast
qed

lemma paged_concat_map:
  "paged m keys tps \<Longrightarrow>
   concat (map (\<lambda>(t, p). map (h t) p) tps) = concat (map (\<lambda>(t, ks). map (h t) ks) keys)"
proof (induction rule: paged.induct)
  case paged_Nil
  show ?case by simp
next
  case (paged_Cons pages ks rest tps t)
  have "concat (map (\<lambda>(t, p). map (h t) p) (map (Pair t) pages)) = map (h t) (concat pages)"
    by (induction pages) simp_all
  with paged_Cons show ?case by simp
qed

lemma paged_keys: "paged m keys tps \<Longrightarrow> concat (map snd tps) = concat (map snd keys)"
  using paged_concat_map[of m keys tps "\<lambda>t k. k"] by (simp add: case_prod_unfold)

lemma paged_page:
  "paged m keys tps \<Longrightarrow> (t, p) \<in> set tps \<Longrightarrow>
   p \<noteq> [] \<and> length p \<le> m \<and> (\<exists>ks. (t, ks) \<in> set keys \<and> (\<exists>pre post. ks = pre @ p @ post))"
proof (induction rule: paged.induct)
  case paged_Nil
  then show ?case by simp
next
  case (paged_Cons pages ks rest tps t')
  from paged_Cons.prems consider "t = t'" "p \<in> set pages" | "(t, p) \<in> set tps" by auto
  then show ?case
  proof cases
    case 1
    from 1(2) obtain ps1 ps2 where "pages = ps1 @ p # ps2" by (meson split_list)
    with paged_Cons.hyps(1) have "ks = concat ps1 @ p @ concat ps2" by auto
    with 1 paged_Cons.hyps(2) show ?thesis by auto
  next
    case 2
    with paged_Cons.IH show ?thesis by auto
  qed
qed

lemma paged_count: "paged m keys tps \<Longrightarrow> length tps \<le> length (concat (map snd keys))"
proof (induction rule: paged.induct)
  case paged_Nil
  show ?case by simp
next
  case (paged_Cons pages ks rest tps t)
  from paged_Cons.hyps(2) have "length pages \<le> length (concat pages)"
  proof (induction pages)
    case Nil
    show ?case by simp
  next
    case (Cons p ps)
    then have "p \<noteq> []" "length ps \<le> length (concat ps)" by auto
    then show ?case by (cases p) auto
  qed
  with paged_Cons show ?case by simp
qed

subsection \<open>Grouping\<close>

lemma sliceAt_Cons: "sliceAt ((t', xs) # m) t = (if t' = t then xs else sliceAt m t)"
  by (simp add: sliceAt_def)

lemma appendAt_Cons:
  "appendAt ((t', xs) # m) t x = (if t' = t then (t, xs @ [x]) # m else (t', xs) # appendAt m t x)"
  by (simp add: appendAt_def sliceAt_def)

lemma appendAt_Nil: "appendAt [] t x = [(t, [x])]"
  by (simp add: appendAt_def sliceAt_def)

lemma pairsOf_appendAt: "mset (pairsOf (appendAt m t x)) = mset (pairsOf m) + {#(t, x)#}"
proof (induction m)
  case Nil
  show ?case by (simp add: appendAt_Nil pairsOf_def)
next
  case (Cons entry m)
  obtain t' xs where "entry = (t', xs)" by (cases entry)
  with Cons show ?case by (simp add: appendAt_Cons pairsOf_def)
qed

lemma sliceAt_appendAt:
  "sliceAt (appendAt m t x) t' = (if t = t' then sliceAt m t @ [x] else sliceAt m t')"
  by (simp add: appendAt_def sliceAt_def update_conv')

lemma distinct_appendAt: "distinct (map fst m) \<Longrightarrow> distinct (map fst (appendAt m t x))"
  by (simp add: appendAt_def distinct_update)

lemma length_pairsOf: "length (pairsOf m) = length (concat (map snd m))"
  by (induction m) (auto simp: pairsOf_def)

lemma groupLoop_pairs:
  "groupLoop E input keys chunks = Inr (keys', chunks') \<Longrightarrow>
   mset (pairsOf keys') = mset (pairsOf keys)
      + mset (map (\<lambda>c. (tableOf E c, ExternalKey E c)) input)"
proof (induction input arbitrary: keys chunks)
  case Nil
  then show ?case by simp
next
  case (Cons c input)
  from Cons.prems obtain t where t: "ChunkTableFor E (From c) = Inr t"
    by (auto split: sum.splits)
  with Cons.prems have "groupLoop E input (appendAt keys t (ExternalKey E c))
      (chunks(t \<mapsto> (case chunks t of None \<Rightarrow> Map.empty | Some m \<Rightarrow> m)(ExternalKey E c \<mapsto> c)))
      = Inr (keys', chunks')" by (simp add: Let_def)
  from Cons.IH[OF this] t show ?case by (simp add: pairsOf_appendAt tableOf_def)
qed

lemma groupLoop_count:
  assumes "groupLoop E input [] Map.empty = Inr (keys, chunks)"
  shows "length (concat (map snd keys)) = length input"
  using groupLoop_pairs[OF assms, THEN arg_cong[of _ _ size]]
  by (simp add: pairsOf_def[of "[]"] flip: length_pairsOf)

subsection \<open>One page goroutine\<close>

lemma rowsLoop_facts:
  "rowsLoop K E chunks rows n = (acts, perr, received, panicked) \<Longrightarrow>
     received = n + length (concat (map outOf acts)) \<and> concat (map errOf acts) = []
     \<and> length (concat (map outOf acts)) \<le> length rows \<and> (panicked \<longleftrightarrow> Panic \<in> set acts)"
proof (induction rows arbitrary: n acts perr received panicked)
  case Nil
  then show ?case by auto
next
  case (Cons row rows)
  show ?case
  proof (cases "callback K E chunks row")
    case (Continue d)
    obtain acts' perr' received' panicked' where
      rest: "rowsLoop K E chunks rows (n + 1) = (acts', perr', received', panicked')"
      by (metis prod_cases4)
    with Continue Cons.prems have "acts = SendOut d # acts'" "perr = perr'"
      "received = received'" "panicked = panicked'" by simp_all
    with Cons.IH[OF rest] show ?thesis by simp
  next
    case (Stop err)
    with Cons.prems show ?thesis by auto
  next
    case IndexPanic
    with Cons.prems show ?thesis by auto
  qed
qed

lemma pageRun_cases:
  obtains acts where "pageRun K E chunks page answer = acts"
      "concat (map errOf acts) = []" "length (concat (map outOf acts)) \<le> length (fst answer)"
      "Panic \<in> set acts \<or> length page \<le> length (concat (map outOf acts))"
  | acts e where "pageRun K E chunks page answer = acts @ [SendErr e]"
      "concat (map errOf acts) = []" "length (concat (map outOf acts)) \<le> length (fst answer)"
proof -
  obtain acts perr received panicked where
    run: "rowsLoop K E chunks (fst answer) 0 = (acts, perr, received, panicked)"
    by (metis prod_cases4)
  note f = rowsLoop_facts[OF run]
  show ?thesis
  proof (cases panicked)
    case True
    with run f have "pageRun K E chunks page answer = acts" "Panic \<in> set acts"
      by (simp_all add: pageRun_def)
    with f that(1) show ?thesis by blast
  next
    case False
    show ?thesis
    proof (cases "perr = None \<and> snd answer = None \<and> \<not> received < length page")
      case True
      with run False have "pageRun K E chunks page answer = acts" by (simp add: pageRun_def)
      moreover from True f have "length page \<le> length (concat (map outOf acts))" by simp
      ultimately show ?thesis using f that(1) by blast
    next
      case other: False
      have "\<exists>e. pageRun K E chunks page answer = acts @ [SendErr e]"
      proof (cases perr)
        case (Some pe)
        with run False show ?thesis by (simp add: pageRun_def)
      next
        case None
        show ?thesis
        proof (cases "snd answer")
          case (Some err)
          with run False None show ?thesis by (simp add: pageRun_def)
        next
          case no_err: None
          with other None have "received < length page" by simp
          with run False None no_err show ?thesis by (simp add: pageRun_def)
        qed
      qed
      with f that(2) show ?thesis by blast
    qed
  qed
qed

lemma pageRun_outs:
  "length (concat (map outOf (pageRun K E chunks page answer))) \<le> length (fst answer)"
proof (rule pageRun_cases[of K E chunks page answer], goal_cases)
  case (1 acts)
  then show ?case by (simp only:)
next
  case (2 acts e)
  from 2(3) show ?case by (simp only: 2(1)) simp
qed

lemma pageRun_errs: "length (concat (map errOf (pageRun K E chunks page answer))) \<le> 1"
proof (rule pageRun_cases[of K E chunks page answer], goal_cases)
  case (1 acts)
  show ?case by (simp only: 1(1,2)) simp
next
  case (2 acts e)
  have "concat (map errOf (acts @ [SendErr e])) = concat (map errOf acts) @ [e]" by simp
  then show ?case by (simp only: 2(1,2)) simp
qed

lemma pageRun_served:
  "length page \<le> length (concat (map outOf (pageRun K E chunks page answer)))
   \<or> concat (map errOf (pageRun K E chunks page answer)) \<noteq> []
   \<or> Panic \<in> set (pageRun K E chunks page answer)"
proof (rule pageRun_cases[of K E chunks page answer], goal_cases)
  case (1 acts)
  from 1(4) show ?case by (simp only: 1(1)) blast
next
  case (2 acts e)
  show ?case by (simp only: 2(1)) simp
qed

subsection \<open>All goroutines of a call\<close>

lemma spawned_outs:
  assumes "\<And>t page. length (fst (readRows t page)) \<le> length page"
  shows "length (pendingOuts (map (\<lambda>(t, page). goroutine K E readRows chunks t page) tps))
           \<le> length (concat (map snd tps))"
proof (induction tps)
  case Nil
  show ?case by simp
next
  case (Cons tp tps)
  obtain t page where tp: "tp = (t, page)" by (cases tp)
  have "length (concat (map outOf (goroutine K E readRows chunks t page))) \<le> length page"
    unfolding goroutine_def using pageRun_outs assms by (rule order_trans)
  with Cons tp show ?case by simp
qed

lemma spawned_errs:
  "length (pendingErrs (map (\<lambda>(t, page). goroutine K E readRows chunks t page) tps)) \<le> length tps"
proof (induction tps)
  case Nil
  show ?case by simp
next
  case (Cons tp tps)
  obtain t page where tp: "tp = (t, page)" by (cases tp)
  have "length (concat (map errOf (goroutine K E readRows chunks t page))) \<le> 1"
    unfolding goroutine_def by (rule pageRun_errs)
  with Cons tp show ?case by simp
qed

lemma spawned_served:
  "length (concat (map snd tps))
      \<le> length (pendingOuts (map (\<lambda>(t, page). goroutine K E readRows chunks t page) tps))
   \<or> pendingErrs (map (\<lambda>(t, page). goroutine K E readRows chunks t page) tps) \<noteq> []
   \<or> Panic \<in> set (concat (map (\<lambda>(t, page). goroutine K E readRows chunks t page) tps))"
proof (induction tps)
  case Nil
  show ?case by simp
next
  case (Cons tp tps)
  obtain t page where tp: "tp = (t, page)" by (cases tp)
  from pageRun_served[of page K E _ "readRows t page"]
  have "length page \<le> length (concat (map outOf (goroutine K E readRows chunks t page)))
      \<or> concat (map errOf (goroutine K E readRows chunks t page)) \<noteq> []
      \<or> Panic \<in> set (goroutine K E readRows chunks t page)"
    unfolding goroutine_def .
  with Cons tp show ?case by auto
qed

subsection \<open>The start of a call\<close>

lemma GetChunks_start_cases:
  assumes "0 < maxRowReads K"
  obtains err where "GetChunks_start K E readRows input = Some (Inl err)"
  | keys chunks tps where "groupLoop E input [] Map.empty = Inr (keys, chunks)"
      "paged (maxRowReads K) keys tps"
      "GetChunks_start K E readRows input =
         Some (Inr \<lparr>procs = map (\<lambda>(t, page). goroutine K E readRows chunks t page) tps,
                    outs = [], errs = [], cap = length input, ctxErr = None,
                    main = Gathering []\<rparr>)"
proof (cases "groupLoop E input [] Map.empty")
  case (Inl err)
  then have "GetChunks_start K E readRows input = Some (Inl err)"
    by (simp add: GetChunks_start_def)
  then show ?thesis by (rule that(1))
next
  case (Inr kc)
  obtain keys chunks where kc: "kc = (keys, chunks)" by (cases kc)
  from spawnAll_paged[OF assms, of E readRows chunks keys] obtain tps where
    "spawnAll K E readRows chunks keys
       = Some (map (\<lambda>(t, page). goroutine K E readRows chunks t page) tps)"
    "paged (maxRowReads K) keys tps" by blast
  with Inr kc that(2)[of keys chunks tps] show ?thesis
    by (simp add: GetChunks_start_def)
qed

lemma GetChunks_start_facts:
  assumes "0 < maxRowReads K" and "GetChunks_start K E readRows input = Some (Inr s0)"
  shows "outs s0 = [] \<and> errs s0 = [] \<and> cap s0 = length input \<and> ctxErr s0 = None
       \<and> main s0 = Gathering []
       \<and> length (procs s0) \<le> length input
       \<and> length (pendingErrs (procs s0)) \<le> length (procs s0)
       \<and> (length input \<le> length (pendingOuts (procs s0)) \<or> pendingErrs (procs s0) \<noteq> []
            \<or> Panic \<in> set (concat (procs s0)))
       \<and> ((\<forall>t page. length (fst (readRows t page)) \<le> length page)
            \<longrightarrow> length (pendingOuts (procs s0)) \<le> length input)"
proof (rule GetChunks_start_cases[OF assms(1), of E readRows input])
  fix err assume "GetChunks_start K E readRows input = Some (Inl err)"
  with assms(2) show ?thesis by simp
next
  fix keys chunks tps
  assume g: "groupLoop E input [] Map.empty = Inr (keys, chunks)"
    and p: "paged (maxRowReads K) keys tps"
    and s: "GetChunks_start K E readRows input =
         Some (Inr \<lparr>procs = map (\<lambda>(t, page). goroutine K E readRows chunks t page) tps,
                    outs = [], errs = [], cap = length input, ctxErr = None,
                    main = Gathering []\<rparr>)"
  from groupLoop_count[OF g] paged_keys[OF p]
  have n: "length (concat (map snd tps)) = length input" by simp
  from paged_count[OF p] groupLoop_count[OF g] have c: "length tps \<le> length input" by simp
  from s assms(2) have s0: "s0 = \<lparr>procs = map (\<lambda>(t, page). goroutine K E readRows chunks t page) tps,
                    outs = [], errs = [], cap = length input, ctxErr = None,
                    main = Gathering []\<rparr>" by simp
  show ?thesis
    unfolding s0 using c n spawned_errs[of K E readRows chunks tps]
      spawned_served[of tps K E readRows chunks] spawned_outs[of readRows K E chunks tps]
    by simp
qed

subsection \<open>A matched row without a cell\<close>

lemma rowsLoop_panic:
  assumes "\<forall>r \<in> set pre. \<exists>d. callback K E chunks r = Continue d"
    and "callback K E chunks row = IndexPanic"
  shows "\<exists>sent. rowsLoop K E chunks (pre @ row # post) n
           = (map SendOut sent @ [Panic], None, n + length pre, True)"
  using assms(1)
proof (induction pre arbitrary: n)
  case Nil
  from assms(2) show ?case by (intro exI[of _ "[]"]) simp
next
  case (Cons r pre)
  then obtain d where d: "callback K E chunks r = Continue d" by auto
  from Cons obtain sent where
    "rowsLoop K E chunks (pre @ row # post) (n + 1)
       = (map SendOut sent @ [Panic], None, n + 1 + length pre, True)" by fastforce
  with d show ?case by (intro exI[of _ "d # sent"]) simp
qed

text \<open>
  Claim C10.  For a row whose key matches a requested chunk, the callback panics
  exactly when the row has no cell in the chunk column family; and when such a row
  is delivered after rows that were all taken, the goroutine ends in the panic after
  its sends, with no error sent on the error channel.
\<close>

theorem callback_panics_on_row_without_cell:
  assumes "chunks (Key row) = Some c"
  shows "(callback K E chunks row = IndexPanic \<longleftrightarrow> cellsOf row (columnFamily K) = [])
       \<and> (cellsOf row (columnFamily K) = []
            \<and> (\<forall>r \<in> set pre. \<exists>d. callback K E chunks r = Continue d)
          \<longrightarrow> (\<exists>sent. pageRun K E chunks page (pre @ row # post, err) = map SendOut sent @ [Panic]))"
proof (intro conjI impI)
  show iff: "callback K E chunks row = IndexPanic \<longleftrightarrow> cellsOf row (columnFamily K) = []"
    using assms by (auto simp: callback_def split: list.splits sum.splits)
  assume a: "cellsOf row (columnFamily K) = []
            \<and> (\<forall>r \<in> set pre. \<exists>d. callback K E chunks r = Continue d)"
  with iff have "callback K E chunks row = IndexPanic" by simp
  from rowsLoop_panic[OF _ this, of pre post 0] a obtain sent where
    "rowsLoop K E chunks (pre @ row # post) 0 = (map SendOut sent @ [Panic], None, 0 + length pre, True)"
    by blast
  then have "pageRun K E chunks page (pre @ row # post, err) = map SendOut sent @ [Panic]"
    by (simp add: pageRun_def)
  then show "\<exists>sent. pageRun K E chunks page (pre @ row # post, err) = map SendOut sent @ [Panic]" ..
qed

theorem callback_panics_on_row_without_cell_witness:
  "[''1/up'' \<mapsto> ex_chunk1] (Key ex_row_other) = Some ex_chunk1
   \<and> cellsOf ex_row_other (columnFamily ex_K) = []
   \<and> callback ex_K ex_E [''1/up'' \<mapsto> ex_chunk1] ex_row_other = IndexPanic
   \<and> (\<exists>sent. pageRun ex_K ex_E [''1/up'' \<mapsto> ex_chunk1] [''1/up''] ([] @ ex_row_other # [], None)
         = map SendOut sent @ [Panic])"
proof -
  have k: "[''1/up'' \<mapsto> ex_chunk1] (Key ex_row_other) = Some ex_chunk1"
    by (simp add: ex_row_other_def)
  have c: "cellsOf ex_row_other (columnFamily ex_K) = []"
    by (simp add: ex_row_other_def cellsOf_def ex_K_def)
  from callback_panics_on_row_without_cell[of "[''1/up'' \<mapsto> ex_chunk1]" ex_row_other
      ex_chunk1 ex_K ex_E "[]" "[''1/up'']" "[]" None] k c
  show ?thesis by simp
qed

subsection \<open>Sends never block\<close>

text \<open>
  Claim C9.  Both channels have the capacity \<open>len(input)\<close>.  When the store delivers
  no more rows than keys asked for, all goroutines together send at most
  \<open>len(input)\<close> chunks; they send at most one error each, and there are at most
  \<open>len(input)\<close> of them.  So in every state of every run, also after the gathering
  loop has returned, a goroutine that is about to send finds room in its channel.
\<close>

theorem page_goroutines_never_block:
  assumes "0 < maxRowReads K"
    and "\<forall>t page. length (fst (readRows t page)) \<le> length page"
    and "GetChunks_start K E readRows input = Some (Inr s0)"
    and "steps s0 s"
  shows "cap s = length input
       \<and> length (pendingOuts (procs s0)) \<le> length input
       \<and> length (pendingErrs (procs s0)) \<le> length (procs s0)
       \<and> length (procs s0) \<le> length input
       \<and> (\<forall>j c rest. j < length (procs s) \<and> procs s ! j = SendOut c # rest
             \<longrightarrow> length (outs s) < cap s)
       \<and> (\<forall>j e rest. j < length (procs s) \<and> procs s ! j = SendErr e # rest
             \<longrightarrow> length (errs s) < cap s)"
proof -
  note f = GetChunks_start_facts[OF assms(1,3)]
  from f assms(2) have o: "length (pendingOuts (procs s0)) \<le> length input" by blast
  from f have e: "length (pendingErrs (procs s0)) \<le> length input" by linarith
  from steps_cap[OF assms(4)] f have c: "cap s = length input" by simp
  have so: "length (outs s) < cap s" if "j < length (procs s)" "procs s ! j = SendOut c # rest"
    for j c rest
    using pendingOuts_update_length[OF that] steps_outs_bound[OF assms(4)] f o c by simp
  have se: "length (errs s) < cap s" if "j < length (procs s)" "procs s ! j = SendErr e # rest"
    for j e rest
    using pendingErrs_update_length[OF that] steps_errs_bound[OF assms(4)] f e c by simp
  from c o f so se show ?thesis by blast
qed

subsection \<open>Reading the in-memory store\<close>

lemma memReadRows_bound: "length (fst (memReadRows st t page)) \<le> length page"
proof -
  have "length (fst (memReadRows st t page))
      = length (filter (\<lambda>x. st t x \<noteq> None) (sort (remdups page)))"
    by (simp add: memReadRows_def List.map_filter_def)
  also have "\<dots> \<le> length (sort (remdups page))" by (rule length_filter_le)
  also have "\<dots> \<le> length page" by simp
  finally show ?thesis .
qed

lemma memReadRows_short:
  assumes "k \<in> set page" and "st t k = None"
  shows "length (fst (memReadRows st t page)) < length page"
proof -
  from assms have "length (filter (\<lambda>x. st t x \<noteq> None) (sort (remdups page)))
      < length (sort (remdups page))"
    by (intro length_filter_less[of k]) auto
  then have "length (fst (memReadRows st t page)) < length (sort (remdups page))"
    by (simp add: memReadRows_def List.map_filter_def)
  also have "\<dots> \<le> length page" by simp
  finally show ?thesis .
qed

lemma memReadRows_err: "snd (memReadRows st t page) = None"
  by (simp add: memReadRows_def)

lemma memReadRows_rows:
  "row \<in> set (fst (memReadRows st t page)) \<Longrightarrow> \<exists>k \<in> set page. st t k = Some row"
  by (auto simp: memReadRows_def List.map_filter_def)

text \<open>A missing key leaves the goroutines short of chunks.\<close>

lemma spawned_outs_short:
  assumes "\<And>t page. length (fst (readRows t page)) \<le> length page"
    and "(t, page) \<in> set tps" and "length (fst (readRows t page)) < length page"
  shows "length (pendingOuts (map (\<lambda>(t, page). goroutine K E readRows chunks t page) tps))
           < length (concat (map snd tps))"
  using assms(2)
proof (induction tps)
  case Nil
  then show ?case by simp
next
  case (Cons tp tps)
  obtain t' page' where tp: "tp = (t', page')" by (cases tp)
  have one: "length (concat (map outOf (goroutine K E readRows chunks t' page'))) \<le> length page'"
    unfolding goroutine_def using pageRun_outs assms(1) by (rule order_trans)
  show ?case
  proof (cases "tp = (t, page)")
    case True
    with tp have "length (concat (map outOf (goroutine K E readRows chunks t' page'))) < length page'"
      unfolding goroutine_def
      using pageRun_outs[of K E "chunksAt chunks t'" page' "readRows t' page'"] assms(3)
      by simp
    with spawned_outs[of readRows K E chunks tps, OF assms(1)] tp show ?thesis by simp
  next
    case False
    with Cons have "length (pendingOuts (map (\<lambda>(t, page). goroutine K E readRows chunks t page) tps))
           < length (concat (map snd tps))" by simp
    with one tp show ?thesis by simp
  qed
qed

lemma paged_pairs: "paged m keys tps \<Longrightarrow> pairsOf tps = pairsOf keys"
  unfolding pairsOf_def by (rule paged_concat_map)

lemma pairsOf_set: "(t, k) \<in> set (pairsOf m) \<longleftrightarrow> (\<exists>xs. (t, xs) \<in> set m \<and> k \<in> set xs)"
  by (auto simp: pairsOf_def)

lemma groupLoop_Inr_tables:
  "groupLoop E input keys chunks = Inr res \<Longrightarrow> c \<in> set input \<Longrightarrow>
   ChunkTableFor E (From c) = Inr (tableOf E c)"
proof (induction input arbitrary: keys chunks)
  case Nil
  then show ?case by simp
next
  case (Cons a input)
  from Cons.prems(1) obtain t where t: "ChunkTableFor E (From a) = Inr t"
    by (auto split: sum.splits)
  show ?case
  proof (cases "c = a")
    case True
    with t show ?thesis by (simp add: tableOf_def)
  next
    case False
    with Cons.prems(2) have "c \<in> set input" by simp
    with Cons.prems(1) t Cons.IH show ?thesis by (auto simp: Let_def)
  qed
qed

lemma start_short_of_chunks:
  assumes "0 < maxRowReads K"
    and "GetChunks_start K E (memReadRows st) input = Some (Inr s0)"
    and "c \<in> set input" and "st (tableOf E c) (ExternalKey E c) = None"
  shows "length (pendingOuts (procs s0)) < length input"
proof (rule GetChunks_start_cases[OF assms(1), of E "memReadRows st" input])
  fix err assume "GetChunks_start K E (memReadRows st) input = Some (Inl err)"
  with assms(2) show ?thesis by simp
next
  fix keys chunks tps
  assume g: "groupLoop E input [] Map.empty = Inr (keys, chunks)"
    and p: "paged (maxRowReads K) keys tps"
    and s: "GetChunks_start K E (memReadRows st) input =
         Some (Inr \<lparr>procs = map (\<lambda>(t, page). goroutine K E (memReadRows st) chunks t page) tps,
                    outs = [], errs = [], cap = length input, ctxErr = None,
                    main = Gathering []\<rparr>)"
  from groupLoop_pairs[OF g] assms(3)
  have "(tableOf E c, ExternalKey E c) \<in># mset (pairsOf keys)"
    by (simp add: pairsOf_def[of "[]"])
  then have "(tableOf E c, ExternalKey E c) \<in> set (pairsOf tps)"
    using paged_pairs[OF p] by simp
  then obtain page where page: "(tableOf E c, page) \<in> set tps" "ExternalKey E c \<in> set page"
    by (auto simp: pairsOf_set)
  from memReadRows_short[of "ExternalKey E c" page st "tableOf E c", OF page(2) assms(4)]
  have "length (fst (memReadRows st (tableOf E c) page)) < length page" .
  from spawned_outs_short[of "memReadRows st", OF memReadRows_bound page(1) this]
  have "length (pendingOuts (map (\<lambda>(t, page). goroutine K E (memReadRows st) chunks t page) tps))
           < length (concat (map snd tps))" .
  moreover from groupLoop_count[OF g] paged_keys[OF p]
  have "length (concat (map snd tps)) = length input" by simp
  ultimately show ?thesis using s assms(2) by auto
qed

subsection \<open>Pages whose rows are all taken\<close>

lemma rowsLoop_taken:
  assumes "\<forall>r \<in> set rows. \<exists>d. callback K E chunks r = Continue d"
  shows "rowsLoop K E chunks rows n
           = (map SendOut (concat (map (\<lambda>r. taken (callback K E chunks r)) rows)), None,
              n + length rows, False)"
  using assms
proof (induction rows arbitrary: n)
  case Nil
  show ?case by simp
next
  case (Cons r rows)
  then obtain d where d: "callback K E chunks r = Continue d" by auto
  from Cons have "rowsLoop K E chunks rows (n + 1)
           = (map SendOut (concat (map (\<lambda>r. taken (callback K E chunks r)) rows)), None,
              n + 1 + length rows, False)" by simp
  with d show ?case by simp
qed

lemma pageRun_taken:
  assumes "\<forall>r \<in> set rows. \<exists>d. callback K E chunks r = Continue d"
  shows "pageRun K E chunks page (rows, None)
           = map SendOut (concat (map (\<lambda>r. taken (callback K E chunks r)) rows))
             @ (if length rows < length page
                then [SendErr (WithStack (CountMismatch (length page) (length rows)))] else [])"
  by (simp add: pageRun_def rowsLoop_taken[OF assms])

subsection \<open>The inner maps built by the grouping\<close>

lemma chunksAt_upd:
  "chunksAt (chunks(t \<mapsto> (chunksAt chunks t)(k \<mapsto> c))) t' k'
     = (if t' = t \<and> k' = k then Some c else chunksAt chunks t' k')"
  by (simp add: chunksAt_def)

lemma groupLoop_step:
  assumes "groupLoop E (c # input) keys chunks = Inr res"
  shows "ChunkTableFor E (From c) = Inr (tableOf E c)
       \<and> groupLoop E input (appendAt keys (tableOf E c) (ExternalKey E c))
           (chunks(tableOf E c \<mapsto> (chunksAt chunks (tableOf E c))(ExternalKey E c \<mapsto> c))) = Inr res"
proof -
  from assms obtain t where t: "ChunkTableFor E (From c) = Inr t" by (auto split: sum.splits)
  then have "tableOf E c = t" by (simp add: tableOf_def)
  with assms t show ?thesis by (simp add: Let_def chunksAt_def)
qed

lemma groupLoop_chunks:
  assumes "groupLoop E input keys chunks = Inr (keys', chunks')"
  shows "(\<forall>t k. chunksAt chunks' t k = chunksAt chunks t k
            \<or> (\<exists>q \<in> set input. chunksAt chunks' t k = Some q \<and> tableOf E q = t \<and> ExternalKey E q = k))
       \<and> (\<forall>c \<in> set input. \<exists>q \<in> set input.
             chunksAt chunks' (tableOf E c) (ExternalKey E c) = Some q
             \<and> tableOf E q = tableOf E c \<and> ExternalKey E q = ExternalKey E c)"
  using assms
proof (induction input arbitrary: keys chunks)
  case Nil
  then show ?case by simp
next
  case (Cons c input)
  define chunks1 where
    "chunks1 = chunks(tableOf E c \<mapsto> (chunksAt chunks (tableOf E c))(ExternalKey E c \<mapsto> c))"
  from groupLoop_step[OF Cons.prems]
  have run: "groupLoop E input (appendAt keys (tableOf E c) (ExternalKey E c)) chunks1
      = Inr (keys', chunks')" by (simp add: chunks1_def)
  note ih = Cons.IH[OF run]
  have at1: "chunksAt chunks1 t k
      = (if t = tableOf E c \<and> k = ExternalKey E c then Some c else chunksAt chunks t k)" for t k
    unfolding chunks1_def by (rule chunksAt_upd)
  have A: "chunksAt chunks' t k = chunksAt chunks t k
            \<or> (\<exists>q \<in> set (c # input). chunksAt chunks' t k = Some q \<and> tableOf E q = t
                  \<and> ExternalKey E q = k)" for t k
  proof -
    from ih consider "chunksAt chunks' t k = chunksAt chunks1 t k"
      | "\<exists>q \<in> set input. chunksAt chunks' t k = Some q \<and> tableOf E q = t \<and> ExternalKey E q = k"
      by blast
    then show ?thesis
    proof cases
      case 1
      then show ?thesis by (auto simp: at1)
    next
      case 2
      then show ?thesis by auto
    qed
  qed
  have B: "\<exists>q \<in> set (c # input). chunksAt chunks' (tableOf E x) (ExternalKey E x) = Some q
             \<and> tableOf E q = tableOf E x \<and> ExternalKey E q = ExternalKey E x"
    if "x \<in> set (c # input)" for x
  proof (cases "x \<in> set input")
    case True
    with ih show ?thesis by auto
  next
    case False
    with that have x: "x = c" by simp
    from ih consider "chunksAt chunks' (tableOf E c) (ExternalKey E c)
          = chunksAt chunks1 (tableOf E c) (ExternalKey E c)"
      | "\<exists>q \<in> set input. chunksAt chunks' (tableOf E c) (ExternalKey E c) = Some q
             \<and> tableOf E q = tableOf E c \<and> ExternalKey E q = ExternalKey E c"
      by blast
    then show ?thesis
    proof cases
      case 1
      then show ?thesis unfolding x by (auto simp: at1)
    next
      case 2
      then show ?thesis unfolding x by auto
    qed
  qed
  from A B show ?case by blast
qed

lemma groupLoop_pair_chunk:
  assumes "groupLoop E input [] Map.empty = Inr (keys, chunks)"
    and "(t, k) \<in> set (pairsOf keys)"
  shows "\<exists>c \<in> set input. tableOf E c = t \<and> ExternalKey E c = k
           \<and> (\<exists>q \<in> set input. chunksAt chunks t k = Some q \<and> tableOf E q = t \<and> ExternalKey E q = k)"
proof -
  from groupLoop_pairs[OF assms(1)] assms(2)
  have "(t, k) \<in> set (map (\<lambda>c. (tableOf E c, ExternalKey E c)) input)"
    by (metis add_cancel_right_left concat.simps(1) list.simps(8) mset.simps(1) pairsOf_def
        set_mset_mset)
  then obtain c where c: "c \<in> set input" "tableOf E c = t" "ExternalKey E c = k" by auto
  with groupLoop_chunks[OF assms(1)] show ?thesis by blast
qed

subsection \<open>A store whose rows are well formed\<close>

lemma wellStored_taken:
  assumes "groupLoop E input [] Map.empty = Inr (keys, chunks)"
    and "paged m keys tps" and "wellStored K E st input"
    and "(t, page) \<in> set tps" and "row \<in> set (fst (memReadRows st t page))"
  shows "\<exists>d. callback K E (chunksAt chunks t) row = Continue d"
proof -
  from memReadRows_rows[OF assms(5)] obtain k where k: "k \<in> set page" "st t k = Some row"
    by blast
  from k(1) assms(4) have "(t, k) \<in> set (pairsOf tps)" by (auto simp: pairsOf_set)
  with paged_pairs[OF assms(2)] have "(t, k) \<in> set (pairsOf keys)" by simp
  from groupLoop_pair_chunk[OF assms(1) this] obtain c q where
    c: "c \<in> set input" "tableOf E c = t" "ExternalKey E c = k"
    and q: "q \<in> set input" "chunksAt chunks t k = Some q" by blast
  from assms(3) c k(2) obtain item items where
    row: "Key row = k" "cellsOf row (columnFamily K) = item # items"
      "\<forall>q \<in> set input. \<exists>d. Decode E q (Value item) = Inr d"
    unfolding wellStored_def by blast
  from row(3) q(1) obtain d where "Decode E q (Value item) = Inr d" by blast
  with row(1,2) q(2) have "callback K E (chunksAt chunks t) row = Continue d"
    by (simp add: callback_def)
  then show ?thesis ..
qed

lemma wellStored_goroutine:
  assumes "groupLoop E input [] Map.empty = Inr (keys, chunks)"
    and "paged m keys tps" and "wellStored K E st input" and "(t, page) \<in> set tps"
  shows "\<exists>sent. goroutine K E (memReadRows st) chunks t page
           = map SendOut sent
             @ (if length sent < length page
                then [SendErr (WithStack (CountMismatch (length page) (length sent)))] else [])"
proof -
  define rows where "rows = fst (memReadRows st t page)"
  have ans: "memReadRows st t page = (rows, None)"
    by (simp add: rows_def memReadRows_def)
  have all: "\<forall>r \<in> set rows. \<exists>d. callback K E (chunksAt chunks t) r = Continue d"
    unfolding rows_def using wellStored_taken[OF assms] by blast
  define sent where "sent = concat (map (\<lambda>r. taken (callback K E (chunksAt chunks t) r)) rows)"
  from all have "length sent = length rows"
    unfolding sent_def by (induction rows) auto
  with pageRun_taken[OF all, of page] show ?thesis
    unfolding goroutine_def ans sent_def by (intro exI[of _ sent]) (simp add: sent_def)
qed

lemma wellStored_errs:
  assumes "groupLoop E input [] Map.empty = Inr (keys, chunks)"
    and "paged m keys tps" and "wellStored K E st input"
    and "e \<in> set (pendingErrs (map (\<lambda>(t, page). goroutine K E (memReadRows st) chunks t page) tps))"
  shows "\<exists>n r. r < n \<and> e = WithStack (CountMismatch n r)"
proof -
  from assms(4) obtain t page where tp: "(t, page) \<in> set tps"
    and e: "e \<in> set (concat (map errOf (goroutine K E (memReadRows st) chunks t page)))"
    by (auto simp: pendingErrs_def)
  from wellStored_goroutine[OF assms(1-3) tp] obtain sent where
    "goroutine K E (memReadRows st) chunks t page
           = map SendOut sent
             @ (if length sent < length page
                then [SendErr (WithStack (CountMismatch (length page) (length sent)))] else [])"
    by blast
  with e show ?thesis by (auto split: if_splits)
qed

lemma start_wellStored_errs:
  assumes "0 < maxRowReads K"
    and "GetChunks_start K E (memReadRows st) input = Some (Inr s0)"
    and "wellStored K E st input" and "e \<in> set (pendingErrs (procs s0))"
  shows "\<exists>n r. r < n \<and> e = WithStack (CountMismatch n r)"
proof (rule GetChunks_start_cases[OF assms(1), of E "memReadRows st" input])
  fix err assume "GetChunks_start K E (memReadRows st) input = Some (Inl err)"
  with assms(2) show ?thesis by simp
next
  fix keys chunks tps
  assume g: "groupLoop E input [] Map.empty = Inr (keys, chunks)"
    and p: "paged (maxRowReads K) keys tps"
    and s: "GetChunks_start K E (memReadRows st) input =
         Some (Inr \<lparr>procs = map (\<lambda>(t, page). goroutine K E (memReadRows st) chunks t page) tps,
                    outs = [], errs = [], cap = length input, ctxErr = None,
                    main = Gathering []\<rparr>)"
  from s assms(2,4)
  have "e \<in> set (pendingErrs (map (\<lambda>(t, page). goroutine K E (memReadRows st) chunks t page) tps))"
    by auto
  from wellStored_errs[OF g p assms(3) this] show ?thesis .
qed

subsection \<open>All chunks or an error\<close>

lemma returned_all_or_error:
  assumes "0 < maxRowReads K" and "GetChunks_start K E readRows input = Some (Inr s0)"
    and "steps s0 s" and "main s = Returned r"
  shows "case r of Inr output \<Rightarrow> length output = length input
         | Inl e \<Rightarrow> e \<in> set (pendingErrs (procs s0)) \<or> ctxErr s = Some e"
proof (cases r)
  case (Inl e)
  from GetChunks_start_facts[OF assms(1,2)] have "main s0 = Gathering []" "errs s0 = []"
    by blast+
  from steps_returned_err[OF assms(3) this] assms(4) Inl show ?thesis by simp
next
  case (Inr out)
  from GetChunks_start_facts[OF assms(1,2)]
  have f: "main s0 = Gathering []" "outs s0 = []" "cap s0 = length input" by blast+
  from steps_conserve[OF assms(3) f(1,2)] assms(4) Inr steps_cap[OF assms(3)] f(3)
  show ?thesis by simp
qed

lemma gathering_never_hangs:
  assumes "0 < maxRowReads K" and "GetChunks_start K E readRows input = Some (Inr s0)"
    and "steps s0 s" and "main s = Gathering output"
  shows "\<exists>s'. step s s' \<and> ctxErr s' = ctxErr s"
proof -
  from GetChunks_start_facts[OF assms(1,2)]
  have "cap s0 \<le> length (pendingOuts (procs s0)) \<or> pendingErrs (procs s0) \<noteq> []
         \<or> Panic \<in> set (concat (procs s0))" by simp
  from steps_served[OF assms(3) this assms(4)] assms(4) show ?thesis
    by (rule gathering_can_step[rotated])
qed

lemma short_never_returns_chunks:
  assumes "0 < maxRowReads K" and "GetChunks_start K E readRows input = Some (Inr s0)"
    and "steps s0 s" and "length (pendingOuts (procs s0)) < length input"
  shows "main s \<noteq> Returned (Inr output)"
proof
  assume r: "main s = Returned (Inr output)"
  from GetChunks_start_facts[OF assms(1,2)]
  have f: "main s0 = Gathering []" "outs s0 = []" "cap s0 = length input" by blast+
  from steps_conserve[OF assms(3) f(1,2)] r
  have "mset output + mset (outs s) + mset (pendingOuts (procs s)) = mset (pendingOuts (procs s0))"
    and "length output = cap s" by blast+
  from this(1)[THEN arg_cong[of _ _ size]] this(2) steps_cap[OF assms(3)] f(3) assms(4)
  show False by simp
qed

text \<open>
  Claim C2.  A call that returns gives either a slice with all \<open>len(input)\<close> chunks
  or an error (one that a goroutine sent, or the error of the context) and no
  slice; and while it gathers it can always go on, so it does return.  When a
  requested key is missing from the store, the call never returns a slice; and if
  the rows that the store does hold are well formed and the context is not
  cancelled, the error is the count mismatch.
\<close>

theorem GetChunks_all_or_error:
  assumes "0 < maxRowReads K" and "GetChunks_start K E readRows input = Some (Inr s0)"
    and "steps s0 s"
  shows "(\<forall>r. main s = Returned r \<longrightarrow>
            (case r of Inr output \<Rightarrow> length output = length input
             | Inl e \<Rightarrow> e \<in> set (pendingErrs (procs s0)) \<or> ctxErr s = Some e))
       \<and> (\<forall>output. main s = Gathering output \<longrightarrow> (\<exists>s'. step s s' \<and> ctxErr s' = ctxErr s))
       \<and> (readRows = memReadRows st \<and> (\<exists>c \<in> set input. st (tableOf E c) (ExternalKey E c) = None)
            \<longrightarrow> (\<forall>r. main s = Returned r \<longrightarrow>
                   (\<exists>e. r = Inl e)
                   \<and> (wellStored K E st input \<and> ctxErr s = None
                        \<longrightarrow> (\<exists>n m. m < n \<and> r = Inl (WithStack (CountMismatch n m))))))"
proof (intro conjI allI impI)
  fix r assume "main s = Returned r"
  with assms show "case r of Inr output \<Rightarrow> length output = length input
             | Inl e \<Rightarrow> e \<in> set (pendingErrs (procs s0)) \<or> ctxErr s = Some e"
    by (rule returned_all_or_error)
next
  fix out assume "main s = Gathering out"
  with assms show "\<exists>s'. step s s' \<and> ctxErr s' = ctxErr s" by (rule gathering_never_hangs)
next
  fix r
  assume a: "readRows = memReadRows st \<and> (\<exists>c \<in> set input. st (tableOf E c) (ExternalKey E c) = None)"
    and r: "main s = Returned r"
  from a assms(2) obtain c where st: "GetChunks_start K E (memReadRows st) input = Some (Inr s0)"
    and c: "c \<in> set input" "st (tableOf E c) (ExternalKey E c) = None" by blast
  from start_short_of_chunks[OF assms(1) st c]
  have short: "length (pendingOuts (procs s0)) < length input" .
  from short_never_returns_chunks[OF assms short] r
  show err: "\<exists>e. r = Inl e" by (cases r) auto
  assume w: "wellStored K E st input \<and> ctxErr s = None"
  from err obtain e where e: "r = Inl e" ..
  from returned_all_or_error[OF assms r] e w have "e \<in> set (pendingErrs (procs s0))" by simp
  from start_wellStored_errs[OF assms(1) st _ this] w e
  show "\<exists>n m. m < n \<and> r = Inl (WithStack (CountMismatch n m))" by blast
qed

subsection \<open>The example calls\<close>

lemmas ex_eval = PutChunks_def ex_K_def ex_E_def ex_chunk1_def ex_chunk2_def ex_chunk3_def
  appendAt_def sliceAt_def Set_mut_def NewMutation_def memApplyBulk_def memEmpty_def
  ServerTime_def cellsOf_def Let_def GetChunks_start_def pageLoop.simps slice_def goroutine_def
  chunksAt_def pageRun_def callback_def memReadRows_def List.map_filter_def tableOf_def

lemma ex_start:
  "GetChunks_start ex_K ex_E (memReadRows ex_store) [ex_chunk1, ex_chunk2] = Some (Inr ex_run0)"
  by (simp add: ex_eval ex_store_def ex_run0_def)

lemma ex_start_absent:
  "GetChunks_start ex_K ex_E (memReadRows ex_store) [ex_chunk1, ex_chunk3] = Some (Inr ex_short0)"
  by (simp add: ex_eval ex_store_def ex_short0_def)

lemma ex_start_twice:
  "GetChunks_start ex_K ex_E (memReadRows ex_store_twice) [ex_chunk1, ex_chunk1]
     = Some (Inr ex_short0)"
  by (simp add: ex_eval ex_store_twice_def ex_short0_def)

lemma ex_short_first: "step ex_short0 ex_short_sent"
proof -
  have "step ex_short0 (ex_short0\<lparr>procs := (procs ex_short0)[0 := [SendErr (WithStack (CountMismatch 2 1))]],
      outs := outs ex_short0 @ [ex_chunk1]\<rparr>)"
    by (rule send_out) (simp_all add: ex_short0_def)
  then show ?thesis by (simp add: ex_short0_def ex_short_sent_def)
qed

lemma ex_short_rest: "steps ex_short_sent ex_short_failed"
proof -
  define e where "e = WithStack (CountMismatch 2 1)"
  define s2 where "s2 = \<lparr>procs = [[]], outs = [ex_chunk1], errs = [e], cap = 2,
     ctxErr = None, main = Gathering []\<rparr>"
  have "step ex_short_sent (ex_short_sent\<lparr>procs := (procs ex_short_sent)[0 := []],
      errs := errs ex_short_sent @ [e]\<rparr>)"
    by (rule send_err) (simp_all add: ex_short_sent_def e_def)
  then have b: "step ex_short_sent s2" by (simp add: ex_short_sent_def s2_def e_def)
  have "step s2 (s2\<lparr>errs := [], main := Returned (Inl e)\<rparr>)"
    by (rule recv_err[of s2 "[]"]) (simp_all add: s2_def)
  then have c: "step s2 ex_short_failed" by (simp add: s2_def ex_short_failed_def e_def)
  from b c show ?thesis by simp
qed

lemma ex_short_run: "steps ex_short0 ex_short_failed"
  using ex_short_first ex_short_rest by (rule converse_rtranclp_into_rtranclp)

lemma ex_cancel_run: "steps ex_run0 ex_run_cancelled"
proof -
  define s1 where "s1 = \<lparr>procs = [[], [SendOut ex_chunk2]], outs = [ex_chunk1], errs = [],
     cap = 2, ctxErr = None, main = Gathering []\<rparr>"
  define s2 where "s2 = \<lparr>procs = [[], []], outs = [ex_chunk1, ex_chunk2], errs = [],
     cap = 2, ctxErr = None, main = Gathering []\<rparr>"
  have "step ex_run0 (ex_run0\<lparr>procs := (procs ex_run0)[0 := []],
      outs := outs ex_run0 @ [ex_chunk1]\<rparr>)"
    by (rule send_out) (simp_all add: ex_run0_def)
  then have a: "step ex_run0 s1" by (simp add: ex_run0_def s1_def)
  have "step s1 (s1\<lparr>procs := (procs s1)[1 := []], outs := outs s1 @ [ex_chunk2]\<rparr>)"
    by (rule send_out) (simp_all add: s1_def)
  then have b: "step s1 s2" by (simp add: s1_def s2_def)
  have "step s2 (s2\<lparr>ctxErr := Some (PlainError ''context canceled'')\<rparr>)"
    by (rule cancel) (simp_all add: s2_def)
  then have c: "step s2 ex_run_cancelled" by (simp add: s2_def ex_run_cancelled_def)
  from a b c show ?thesis by simp
qed

lemma ex_full_run: "steps ex_run_cancelled ex_run_full"
proof -
  define ce where "ce = PlainError ''context canceled''"
  define s1 where "s1 = \<lparr>procs = [[], []], outs = [ex_chunk2], errs = [],
     cap = 2, ctxErr = Some ce, main = Gathering [ex_chunk1]\<rparr>"
  define s2 where "s2 = \<lparr>procs = [[], []], outs = [], errs = [],
     cap = 2, ctxErr = Some ce, main = Gathering [ex_chunk1, ex_chunk2]\<rparr>"
  have "step ex_run_cancelled (ex_run_cancelled\<lparr>outs := [ex_chunk2],
      main := Gathering ([] @ [ex_chunk1])\<rparr>)"
    by (rule recv_out) (simp_all add: ex_run_cancelled_def)
  then have a: "step ex_run_cancelled s1" by (simp add: ex_run_cancelled_def s1_def ce_def)
  have "step s1 (s1\<lparr>outs := [], main := Gathering ([ex_chunk1] @ [ex_chunk2])\<rparr>)"
    by (rule recv_out) (simp_all add: s1_def)
  then have b: "step s1 s2" by (simp add: s1_def s2_def)
  have "step s2 (s2\<lparr>main := Returned (Inr [ex_chunk1, ex_chunk2])\<rparr>)"
    by (rule finish) (simp_all add: s2_def)
  then have c: "step s2 ex_run_full" by (simp add: s2_def ex_run_full_def ce_def)
  from a b c show ?thesis by simp
qed

lemma ex_wellStored: "wellStored ex_K ex_E ex_store [ex_chunk1, ex_chunk3]"
  by (simp add: wellStored_def ex_eval ex_store_def)

lemma ex_absent: "ex_store (tableOf ex_E ex_chunk3) (ExternalKey ex_E ex_chunk3) = None"
  by (simp add: ex_eval ex_store_def)

theorem page_goroutines_never_block_witness:
  "0 < maxRowReads ex_K
   \<and> (\<forall>t page. length (fst (memReadRows ex_store t page)) \<le> length page)
   \<and> GetChunks_start ex_K ex_E (memReadRows ex_store) [ex_chunk1, ex_chunk3] = Some (Inr ex_short0)
   \<and> steps ex_short0 ex_short0 \<and> steps ex_short0 ex_short_sent
   \<and> 0 < length (procs ex_short0)
   \<and> procs ex_short0 ! 0 = SendOut ex_chunk1 # [SendErr (WithStack (CountMismatch 2 1))]
   \<and> length (outs ex_short0) < cap ex_short0
   \<and> 0 < length (procs ex_short_sent)
   \<and> procs ex_short_sent ! 0 = SendErr (WithStack (CountMismatch 2 1)) # []
   \<and> length (errs ex_short_sent) < cap ex_short_sent"
proof -
  have m: "0 < maxRowReads ex_K" by (simp add: ex_K_def)
  have b: "\<forall>t page. length (fst (memReadRows ex_store t page)) \<le> length page"
    using memReadRows_bound by blast
  have r: "steps ex_short0 ex_short0" by simp
  have f: "steps ex_short0 ex_short_sent" using ex_short_first by simp
  have p0: "0 < length (procs ex_short0)"
    "procs ex_short0 ! 0 = SendOut ex_chunk1 # [SendErr (WithStack (CountMismatch 2 1))]"
    by (simp_all add: ex_short0_def)
  have p1: "0 < length (procs ex_short_sent)"
    "procs ex_short_sent ! 0 = SendErr (WithStack (CountMismatch 2 1)) # []"
    by (simp_all add: ex_short_sent_def)
  from page_goroutines_never_block[OF m b ex_start_absent r] p0
  have "length (outs ex_short0) < cap ex_short0" by blast
  moreover from page_goroutines_never_block[OF m b ex_start_absent f] p1
  have "length (errs ex_short_sent) < cap ex_short_sent" by blast
  ultimately show ?thesis using m b ex_start_absent r f p0 p1 by blast
qed

theorem GetChunks_all_or_error_witness:
  "0 < maxRowReads ex_K
   \<and> GetChunks_start ex_K ex_E (memReadRows ex_store) [ex_chunk1, ex_chunk3] = Some (Inr ex_short0)
   \<and> steps ex_short0 ex_short_failed
   \<and> main ex_short_failed = Returned (Inl (WithStack (CountMismatch 2 1)))
   \<and> ex_chunk3 \<in> set [ex_chunk1, ex_chunk3]
   \<and> ex_store (tableOf ex_E ex_chunk3) (ExternalKey ex_E ex_chunk3) = None
   \<and> wellStored ex_K ex_E ex_store [ex_chunk1, ex_chunk3] \<and> ctxErr ex_short_failed = None
   \<and> (\<exists>n m. m < n \<and> Inl (WithStack (CountMismatch 2 1))
         = (Inl (WithStack (CountMismatch n m)) :: error + Chunk list))
   \<and> steps ex_short0 ex_short0 \<and> main ex_short0 = Gathering []
   \<and> (\<exists>s'. step ex_short0 s' \<and> ctxErr s' = ctxErr ex_short0)"
proof -
  have m: "0 < maxRowReads ex_K" by (simp add: ex_K_def)
  have ret: "main ex_short_failed = Returned (Inl (WithStack (CountMismatch 2 1)))"
    "ctxErr ex_short_failed = None" by (simp_all add: ex_short_failed_def)
  have mem: "ex_chunk3 \<in> set [ex_chunk1, ex_chunk3]" by simp
  have g: "main ex_short0 = Gathering []" by (simp add: ex_short0_def)
  have r: "steps ex_short0 ex_short0" by simp
  from GetChunks_all_or_error[OF m ex_start_absent r, of ex_store] g
  have "\<exists>s'. step ex_short0 s' \<and> ctxErr s' = ctxErr ex_short0" by blast
  moreover have "\<exists>n m. m < n \<and> Inl (WithStack (CountMismatch 2 1))
         = (Inl (WithStack (CountMismatch n m)) :: error + Chunk list)"
    using GetChunks_all_or_error[OF m ex_start_absent ex_short_run, of ex_store]
      ret mem ex_absent ex_wellStored by blast
  ultimately show ?thesis using m ex_start_absent ex_short_run ret mem ex_absent ex_wellStored r g
    by blast
qed

subsection \<open>Cancellation\<close>

text \<open>
  Claim C8, as stated, fails.  In the call for the two example chunks both
  goroutines send, then the context is cancelled before the gathering loop has
  taken anything; the \<open>select\<close> may still take the two chunks that are ready, and
  the call returns them with a nil error instead of the error of the context.
\<close>

theorem GetChunks_cancel_has_no_priority:
  "GetChunks_start ex_K ex_E (memReadRows ex_store) [ex_chunk1, ex_chunk2] = Some (Inr ex_run0)
   \<and> steps ex_run0 ex_run_cancelled
   \<and> ctxErr ex_run_cancelled = Some (PlainError ''context canceled'')
   \<and> main ex_run_cancelled = Gathering []
   \<and> steps ex_run_cancelled ex_run_full
   \<and> main ex_run_full = Returned (Inr [ex_chunk1, ex_chunk2])"
  using ex_start ex_cancel_run ex_full_run
  by (simp add: ex_run_cancelled_def ex_run_full_def)

text \<open>
  Claim C8, amended.  Once the context is cancelled and results are still to be
  gathered, the gathering loop can return at once, with the error of the context
  as it is and no slice, whatever the page goroutines are doing; and when nothing
  is ready on either channel, that is the only way it can return.
\<close>

theorem GetChunks_cancelled_returns_ctx_error:
  assumes "main s = Gathering output" and "length output < cap s" and "ctxErr s = Some e"
  shows "step s (s\<lparr>main := Returned (Inl e)\<rparr>)
       \<and> (outs s = [] \<and> errs s = [] \<longrightarrow>
            (\<forall>s' r. step s s' \<and> main s' = Returned r \<longrightarrow> r = Inl e))"
proof (intro conjI impI allI)
  from assms show "step s (s\<lparr>main := Returned (Inl e)\<rparr>)" by (rule recv_done)
next
  fix s' r
  assume empty: "outs s = [] \<and> errs s = []" and st: "step s s' \<and> main s' = Returned r"
  then have "step s s'" "main s' = Returned r" by simp_all
  then show "r = Inl e" using assms empty
    by (induction rule: step.induct) auto
qed

theorem GetChunks_cancelled_returns_ctx_error_witness:
  "main ex_run_waiting = Gathering [] \<and> length ([] :: Chunk list) < cap ex_run_waiting
   \<and> ctxErr ex_run_waiting = Some (PlainError ''context canceled'')
   \<and> outs ex_run_waiting = [] \<and> errs ex_run_waiting = []
   \<and> step ex_run_waiting (ex_run_waiting\<lparr>main := Returned (Inl (PlainError ''context canceled''))\<rparr>)
   \<and> main (ex_run_waiting\<lparr>main := Returned (Inl (PlainError ''context canceled''))\<rparr>)
       = Returned (Inl (PlainError ''context canceled''))"
proof -
  have a: "main ex_run_waiting = Gathering []" "length ([] :: Chunk list) < cap ex_run_waiting"
    "ctxErr ex_run_waiting = Some (PlainError ''context canceled'')"
    "outs ex_run_waiting = []" "errs ex_run_waiting = []"
    by (simp_all add: ex_run_waiting_def ex_run0_def)
  from GetChunks_cancelled_returns_ctx_error[OF a(1,2,3)] a show ?thesis by simp
qed

subsection \<open>The first loop of PutChunks\<close>

lemma putLoop_step:
  assumes "putLoop K E (c # chunks) keys muts = Inr res"
  shows "Encoded E c = Inr (encodedOf E c) \<and> ChunkTableFor E (From c) = Inr (tableOf E c)
       \<and> putLoop K E chunks (appendAt keys (tableOf E c) (ExternalKey E c))
           (appendAt muts (tableOf E c) [SetCell (columnFamily K) (column K) 0 (encodedOf E c)])
         = Inr res"
proof -
  from assms obtain buf where buf: "Encoded E c = Inr buf" by (auto split: sum.splits)
  with assms obtain t where t: "ChunkTableFor E (From c) = Inr t"
    by (auto simp: Let_def split: sum.splits)
  from buf t have "encodedOf E c = buf" "tableOf E c = t"
    by (simp_all add: encodedOf_def tableOf_def)
  with assms buf t show ?thesis by (simp add: Let_def Set_mut_def NewMutation_def)
qed

lemma putLoop_ok:
  "putLoop K E chunks keys muts = Inr res \<Longrightarrow> c \<in> set chunks \<Longrightarrow>
   Encoded E c = Inr (encodedOf E c) \<and> ChunkTableFor E (From c) = Inr (tableOf E c)"
proof (induction chunks arbitrary: keys muts)
  case Nil
  then show ?case by simp
next
  case (Cons a chunks)
  note s = putLoop_step[OF Cons.prems(1)]
  show ?case
  proof (cases "c = a")
    case True
    with s show ?thesis by simp
  next
    case False
    with Cons.prems(2) have "c \<in> set chunks" by simp
    with s Cons.IH show ?thesis by blast
  qed
qed

lemma putLoop_slices:
  "putLoop K E chunks keys muts = Inr (keys', muts') \<Longrightarrow>
   sliceAt keys' t = sliceAt keys t @ map (ExternalKey E) (filter (\<lambda>c. tableOf E c = t) chunks)
   \<and> sliceAt muts' t = sliceAt muts t
        @ map (\<lambda>c. [SetCell (columnFamily K) (column K) 0 (encodedOf E c)])
            (filter (\<lambda>c. tableOf E c = t) chunks)"
proof (induction chunks arbitrary: keys muts)
  case Nil
  then show ?case by simp
next
  case (Cons c chunks)
  from putLoop_step[OF Cons.prems]
  have "putLoop K E chunks (appendAt keys (tableOf E c) (ExternalKey E c))
           (appendAt muts (tableOf E c) [SetCell (columnFamily K) (column K) 0 (encodedOf E c)])
         = Inr (keys', muts')" by simp
  from Cons.IH[OF this] show ?case by (simp add: sliceAt_appendAt)
qed

lemma putLoop_distinct:
  "putLoop K E chunks keys muts = Inr (keys', muts') \<Longrightarrow> distinct (map fst keys) \<Longrightarrow>
   distinct (map fst keys')"
proof (induction chunks arbitrary: keys muts)
  case Nil
  then show ?case by simp
next
  case (Cons c chunks)
  from putLoop_step[OF Cons.prems(1)]
  have "putLoop K E chunks (appendAt keys (tableOf E c) (ExternalKey E c))
           (appendAt muts (tableOf E c) [SetCell (columnFamily K) (column K) 0 (encodedOf E c)])
         = Inr (keys', muts')" by simp
  from Cons.IH[OF this distinct_appendAt[OF Cons.prems(2)]] show ?case .
qed

text \<open>
  Claim C7, as stated, fails on the timestamp.  For the one example chunk the
  mutation carries the timestamp \<open>0\<close>, which is not \<open>ServerTime\<close>, the value that
  leaves the timestamp to the store; and the in-memory store, whose clock stands
  at \<open>77\<close>, keeps the cell at timestamp \<open>0\<close>.
\<close>

theorem PutChunks_mutation_has_timestamp_zero:
  "putLoop ex_K ex_E [ex_chunk1] [] []
     = Inr ([(''chunks_a'', [''1/up''])], [(''chunks_a'', [[SetCell ''f'' ''c'' 0 ''data'']])])
   \<and> SetCell ''f'' ''c'' 0 ''data'' \<noteq> SetCell ''f'' ''c'' ServerTime ''data''
   \<and> ex_store ''chunks_a'' ''1/up''
       = Some [(''f'', [\<lparr>Row = ''1/up'', Column = ''c'', Timestamp = 0, Value = ''data''\<rparr>])]"
  by (simp add: ex_eval ex_store_def)

text \<open>
  Claim C7, amended.  When the first loop of \<open>PutChunks\<close> has gone through a batch,
  every chunk was encoded and routed, and for every table the keys and the
  mutations gathered are those of its chunks, in their order: the mutation of a
  chunk is the single cell of the fixed column family and column with the chunk's
  encoded bytes and the timestamp \<open>0\<close>.
\<close>

theorem PutChunks_mutations:
  assumes "putLoop K E chunks [] [] = Inr (keys, muts)"
  shows "(\<forall>c \<in> set chunks. Encoded E c = Inr (encodedOf E c)
             \<and> ChunkTableFor E (From c) = Inr (tableOf E c))
       \<and> (\<forall>t. sliceAt keys t = map (ExternalKey E) (filter (\<lambda>c. tableOf E c = t) chunks)
             \<and> sliceAt muts t
                 = map (\<lambda>c. [SetCell (columnFamily K) (column K) 0 (encodedOf E c)])
                     (filter (\<lambda>c. tableOf E c = t) chunks))"
  using putLoop_ok[OF assms] putLoop_slices[OF assms] by (simp add: sliceAt_def)

theorem PutChunks_mutations_witness:
  "putLoop ex_K ex_E [ex_chunk1, ex_chunk2] [] []
     = Inr ([(''chunks_a'', [''1/up'']), (''chunks_b'', [''1/go''])],
            [(''chunks_a'', [[SetCell ''f'' ''c'' 0 ''data'']]),
             (''chunks_b'', [[SetCell ''f'' ''c'' 0 ''more'']])])
   \<and> ex_chunk2 \<in> set [ex_chunk1, ex_chunk2]
   \<and> Encoded ex_E ex_chunk2 = Inr (encodedOf ex_E ex_chunk2)
   \<and> sliceAt [(''chunks_a'', [[SetCell ''f'' ''c'' 0 ''data'']]),
              (''chunks_b'', [[SetCell ''f'' ''c'' 0 ''more'']])] ''chunks_b''
       = map (\<lambda>c. [SetCell (columnFamily ex_K) (column ex_K) 0 (encodedOf ex_E c)])
           (filter (\<lambda>c. tableOf ex_E c = ''chunks_b'') [ex_chunk1, ex_chunk2])"
proof -
  have p: "putLoop ex_K ex_E [ex_chunk1, ex_chunk2] [] []
     = Inr ([(''chunks_a'', [''1/up'']), (''chunks_b'', [''1/go''])],
            [(''chunks_a'', [[SetCell ''f'' ''c'' 0 ''data'']]),
             (''chunks_b'', [[SetCell ''f'' ''c'' 0 ''more'']])])"
    by (simp add: ex_eval)
  from PutChunks_mutations[OF p] p show ?thesis by simp
qed

subsection \<open>Writing the in-memory store\<close>

lemma memApplyRows_other:
  "k \<notin> fst ` set kms \<Longrightarrow> memApplyRows now kms tbl k = tbl k"
proof (induction kms arbitrary: tbl)
  case Nil
  show ?case by simp
next
  case (Cons km kms)
  obtain k' mut where km: "km = (k', mut)" by (cases km)
  with Cons.prems have "k \<noteq> k'" "k \<notin> fst ` set kms" by auto
  with Cons.IH km show ?case by simp
qed

lemma memApplyRows_lookup:
  "distinct (map fst kms) \<Longrightarrow> (k, mut) \<in> set kms \<Longrightarrow>
   memApplyRows now kms tbl k
     = Some (fold (memSetCell now k) mut (case tbl k of None \<Rightarrow> [] | Some row \<Rightarrow> row))"
proof (induction kms arbitrary: tbl)
  case Nil
  then show ?case by simp
next
  case (Cons km kms)
  obtain k' mut' where km: "km = (k', mut')" by (cases km)
  show ?case
  proof (cases "(k, mut) = km")
    case True
    with km Cons.prems(1) have "k \<notin> fst ` set kms" "k' = k" "mut' = mut" by auto
    with km memApplyRows_other[of k kms now] show ?thesis by simp
  next
    case False
    with Cons.prems(2) have in_rest: "(k, mut) \<in> set kms" by simp
    with Cons.prems(1) km have "k \<noteq> k'" by (auto simp: image_iff)
    with Cons.IH[OF _ in_rest] Cons.prems(1) km show ?thesis by simp
  qed
qed

lemma applyLoop_mem:
  assumes "distinct (map fst entries)"
    and "\<forall>(t, ks) \<in> set entries. length ks = length (sliceAt muts t)"
  shows "applyLoop (memApplyBulk now) entries muts st
           = (None, \<lambda>t. case map_of entries t of
                           None \<Rightarrow> st t
                         | Some ks \<Rightarrow> memApplyRows now (zip ks (sliceAt muts t)) (st t))"
  using assms
proof (induction entries arbitrary: st)
  case Nil
  show ?case by simp
next
  case (Cons entry entries)
  obtain t ks where entry: "entry = (t, ks)" by (cases entry)
  with Cons.prems have len: "length ks = length (sliceAt muts t)"
    and d: "distinct (map fst entries)" and fresh: "map_of entries t = None"
    and rest: "\<forall>(t, ks) \<in> set entries. length ks = length (sliceAt muts t)"
    by (auto simp: map_of_eq_None_iff)
  define st1 where "st1 = st(t := memApplyRows now (zip ks (sliceAt muts t)) (st t))"
  from len have "memApplyBulk now t ks (sliceAt muts t) st = (([], None), st1)"
    by (simp add: memApplyBulk_def st1_def)
  then have "applyLoop (memApplyBulk now) (entry # entries) muts st
      = applyLoop (memApplyBulk now) entries muts st1" by (simp add: entry)
  also have "\<dots> = (None, \<lambda>t. case map_of entries t of
                           None \<Rightarrow> st1 t
                         | Some ks \<Rightarrow> memApplyRows now (zip ks (sliceAt muts t)) (st1 t))"
    by (rule Cons.IH[OF d rest])
  also have "(\<lambda>t. case map_of entries t of
                           None \<Rightarrow> st1 t
                         | Some ks \<Rightarrow> memApplyRows now (zip ks (sliceAt muts t)) (st1 t))
      = (\<lambda>t. case map_of (entry # entries) t of
                           None \<Rightarrow> st t
                         | Some ks \<Rightarrow> memApplyRows now (zip ks (sliceAt muts t)) (st t))"
    using fresh by (auto simp: fun_eq_iff entry st1_def split: option.splits)
  finally show ?case .
qed

lemma distinct_keys_of_table:
  assumes "distinct (map (\<lambda>c. (tableOf E c, ExternalKey E c)) chunks)"
  shows "distinct (map (ExternalKey E) (filter (\<lambda>c. tableOf E c = t) chunks))"
  using assms
proof (induction chunks)
  case Nil
  show ?case by simp
next
  case (Cons c chunks)
  then show ?case by (auto simp: image_iff)
qed

text \<open>The row that a successful \<open>PutChunks\<close> on the empty store leaves for a chunk.\<close>

lemma PutChunks_row:
  assumes "PutChunks K E (memApplyBulk now) chunks memEmpty = (None, st)"
    and "distinct (map (\<lambda>c. (tableOf E c, ExternalKey E c)) chunks)"
    and "c \<in> set chunks"
  shows "st (tableOf E c) (ExternalKey E c)
           = Some [(columnFamily K,
                    [\<lparr>Row = ExternalKey E c, Column = column K, Timestamp = 0,
                      Value = encodedOf E c\<rparr>])]"
proof -
  from assms(1) obtain keys muts where put: "putLoop K E chunks [] [] = Inr (keys, muts)"
    by (auto simp: PutChunks_def split: sum.splits)
  with assms(1) have app: "applyLoop (memApplyBulk now) keys muts memEmpty = (None, st)"
    by (simp add: PutChunks_def)
  from putLoop_distinct[OF put] have d: "distinct (map fst keys)" by simp
  have sl: "sliceAt keys t = map (ExternalKey E) (filter (\<lambda>c. tableOf E c = t) chunks)"
    "sliceAt muts t = map (\<lambda>c. [SetCell (columnFamily K) (column K) 0 (encodedOf E c)])
                     (filter (\<lambda>c. tableOf E c = t) chunks)" for t
    using putLoop_slices[OF put, of t] by (simp_all add: sliceAt_def)
  have entries: "ks = sliceAt keys t" if "(t, ks) \<in> set keys" for t ks
    using that d by (simp add: sliceAt_def)
  have len: "\<forall>(t, ks) \<in> set keys. length ks = length (sliceAt muts t)"
  proof (clarify)
    fix t ks assume "(t, ks) \<in> set keys"
    from entries[OF this] have "length ks = length (sliceAt keys t)" by simp
    then show "length ks = length (sliceAt muts t)" by (simp add: sl)
  qed
  from applyLoop_mem[OF d len, of now memEmpty] app
  have st: "st = (\<lambda>t. case map_of keys t of
                           None \<Rightarrow> memEmpty t
                         | Some ks \<Rightarrow> memApplyRows now (zip ks (sliceAt muts t)) (memEmpty t))"
    by simp
  define t where "t = tableOf E c"
  define cs where "cs = filter (\<lambda>c. tableOf E c = t) chunks"
  have "st t = memApplyRows now (zip (sliceAt keys t) (sliceAt muts t)) Map.empty"
  proof (cases "map_of keys t")
    case None
    then show ?thesis by (simp add: st sliceAt_def memEmpty_def)
  next
    case (Some ks)
    then have "(t, ks) \<in> set keys" by (rule map_of_SomeD)
    with entries Some show ?thesis by (simp add: st memEmpty_def)
  qed
  also have "zip (sliceAt keys t) (sliceAt muts t)
      = map (\<lambda>c. (ExternalKey E c, [SetCell (columnFamily K) (column K) 0 (encodedOf E c)])) cs"
    unfolding sl cs_def by (simp add: zip_map_map split_def zip_same_conv_map)
  finally have stt: "st t = memApplyRows now
      (map (\<lambda>c. (ExternalKey E c, [SetCell (columnFamily K) (column K) 0 (encodedOf E c)])) cs)
      Map.empty" .
  have dk: "distinct (map fst
      (map (\<lambda>c. (ExternalKey E c, [SetCell (columnFamily K) (column K) 0 (encodedOf E c)])) cs))"
    using distinct_keys_of_table[OF assms(2), of t] by (simp add: cs_def comp_def)
  have "c \<in> set cs" using assms(3) by (simp add: cs_def t_def)
  then have mem: "(ExternalKey E c, [SetCell (columnFamily K) (column K) 0 (encodedOf E c)])
      \<in> set (map (\<lambda>c. (ExternalKey E c, [SetCell (columnFamily K) (column K) 0 (encodedOf E c)])) cs)"
    by auto
  from memApplyRows_lookup[OF dk mem, of now Map.empty] stt
  show ?thesis unfolding t_def by (simp add: ServerTime_def cellsOf_def)
qed

subsection \<open>Reading back what was written\<close>

lemma map_filter_all:
  "\<forall>x \<in> set xs. \<exists>y. f x = Some y \<and> g y = h x \<Longrightarrow> map g (List.map_filter f xs) = map h xs"
  by (induction xs) (auto simp: List.map_filter_def)

lemma goroutine_all_present:
  assumes "distinct page"
    and "\<forall>k \<in> set page. \<exists>row. st t k = Some row
           \<and> callback K E (chunksAt chunks t) row = Continue (h k)"
  shows "goroutine K E (memReadRows st) chunks t page = map SendOut (map h (sort page))"
proof -
  define rows where "rows = List.map_filter (st t) (sort page)"
  from assms(1) have ans: "memReadRows st t page = (rows, None)"
    by (simp add: memReadRows_def rows_def distinct_remdups_id)
  from assms(2) have each: "\<forall>k \<in> set (sort page). \<exists>row. st t k = Some row
      \<and> callback K E (chunksAt chunks t) row = Continue (h k)" by simp
  then have cb: "map (callback K E (chunksAt chunks t)) rows = map (\<lambda>k. Continue (h k)) (sort page)"
    unfolding rows_def by (rule map_filter_all)
  have "length (map (callback K E (chunksAt chunks t)) rows)
      = length (map (\<lambda>k. Continue (h k)) (sort page))" by (simp only: cb)
  then have len: "length rows = length page" by simp
  have all: "\<forall>r \<in> set rows. \<exists>d. callback K E (chunksAt chunks t) r = Continue d"
  proof
    fix r assume "r \<in> set rows"
    then have "callback K E (chunksAt chunks t) r \<in> set (map (callback K E (chunksAt chunks t)) rows)"
      by simp
    with cb show "\<exists>d. callback K E (chunksAt chunks t) r = Continue d" by auto
  qed
  have "concat (map (\<lambda>r. taken (callback K E (chunksAt chunks t) r)) rows)
      = concat (map taken (map (callback K E (chunksAt chunks t)) rows))" by (simp add: comp_def)
  also have "\<dots> = map h (sort page)"
  proof -
    have "concat (map taken (map (\<lambda>k. Continue (h k)) xs)) = map h xs" for xs
      by (induction xs) simp_all
    then show ?thesis unfolding cb .
  qed
  finally have sent: "concat (map (\<lambda>r. taken (callback K E (chunksAt chunks t) r)) rows)
      = map h (sort page)" .
  from pageRun_taken[OF all, of page] len sent show ?thesis
    by (simp add: goroutine_def ans)
qed

lemma groupLoop_Inr:
  "\<forall>c \<in> set input. ChunkTableFor E (From c) = Inr (tableOf E c) \<Longrightarrow>
   \<exists>res. groupLoop E input keys chunks = Inr res"
proof (induction input arbitrary: keys chunks)
  case Nil
  show ?case by simp
next
  case (Cons c input)
  then show ?case by (simp add: Let_def)
qed

lemma pairsOf_map:
  "concat (map (\<lambda>(t, ks). map (h t) ks) m) = map (\<lambda>(t, k). h t k) (pairsOf m)"
  by (induction m) (auto simp: pairsOf_def)

lemma distinct_page:
  "distinct (pairsOf tps) \<Longrightarrow> (t, page) \<in> set tps \<Longrightarrow> distinct page"
proof (induction tps)
  case Nil
  then show ?case by simp
next
  case (Cons tp tps)
  obtain t' page' where tp: "tp = (t', page')" by (cases tp)
  from Cons.prems(1) tp have "distinct (map (Pair t') page')" "distinct (pairsOf tps)"
    by (simp_all add: pairsOf_def)
  with Cons tp show ?case by (auto simp: distinct_map)
qed

lemma sends_only:
  "mset (pendingOuts (map (\<lambda>(t, page). map SendOut (map (h t) (sort page))) tps))
     = mset (concat (map (\<lambda>(t, p). map (h t) p) tps))
   \<and> pendingErrs (map (\<lambda>(t, page). map SendOut (map (h t) (sort page))) tps) = []
   \<and> Panic \<notin> set (concat (map (\<lambda>(t, page). map SendOut (map (h t) (sort page))) tps))"
proof (induction tps)
  case Nil
  show ?case by simp
next
  case (Cons tp tps)
  obtain t page where tp: "tp = (t, page)" by (cases tp)
  have o: "concat (map outOf (map SendOut xs)) = xs" for xs :: "Chunk list"
    by (induction xs) simp_all
  have e: "concat (map errOf (map SendOut xs)) = []" for xs :: "Chunk list"
    by (induction xs) simp_all
  have "mset (map (h t) (sort page)) = mset (map (h t) page)" by simp
  with Cons tp o[of "map (h t) (sort page)"] e[of "map (h t) (sort page)"] show ?case
    by (auto simp del: mset_map)
qed

lemma steps_no_crash:
  "steps s0 s \<Longrightarrow> main s0 \<noteq> Crashed \<Longrightarrow> Panic \<notin> set (concat (procs s0)) \<Longrightarrow>
   main s \<noteq> Crashed \<and> Panic \<notin> set (concat (procs s))"
proof (induction rule: rtranclp_induct)
  case base
  then show ?case by simp
next
  case (step y z)
  then have y: "main y \<noteq> Crashed" "Panic \<notin> set (concat (procs y))" by simp_all
  from step.hyps(2) y show ?case
  proof (induction rule: step.induct)
    case (send_out s j c rest)
    from concat_update_mset[OF send_out(2,3), THEN arg_cong[of _ _ set_mset]] send_out
    show ?case by auto
  next
    case (send_err s j e rest)
    from concat_update_mset[OF send_err(2,3), THEN arg_cong[of _ _ set_mset]] send_err
    show ?case by auto
  next
    case (panic s j rest)
    then have "Panic \<in> set (procs s ! j)" by simp
    with panic(2) have "Panic \<in> set (concat (procs s))" by (auto intro: nth_mem)
    with panic show ?case by simp
  qed auto
qed

subsection \<open>Write, then read\<close>

text \<open>
  Claim C1, as stated, fails for a batch that holds a key twice.  The example chunk
  is written twice on the empty store and both writes succeed; the store then holds
  one row for it.  \<open>GetChunks\<close> for the same two chunks asks for two keys on one
  page and gets one row, so its goroutine sends one chunk and the count mismatch,
  and the call, never cancelled, returns that error.
\<close>

theorem PutChunks_GetChunks_same_key_twice_fails:
  "PutChunks ex_K ex_E (memApplyBulk 77) [ex_chunk1, ex_chunk1] memEmpty = (None, ex_store_twice)
   \<and> GetChunks_start ex_K ex_E (memReadRows ex_store_twice) [ex_chunk1, ex_chunk1]
       = Some (Inr ex_short0)
   \<and> steps ex_short0 ex_short_failed
   \<and> ctxErr ex_short_failed = None
   \<and> main ex_short_failed = Returned (Inl (WithStack (CountMismatch 2 1)))"
proof -
  have "fst (PutChunks ex_K ex_E (memApplyBulk 77) [ex_chunk1, ex_chunk1] memEmpty) = None"
    by (simp add: ex_eval)
  then have "PutChunks ex_K ex_E (memApplyBulk 77) [ex_chunk1, ex_chunk1] memEmpty
      = (None, ex_store_twice)"
    unfolding ex_store_twice_def by (metis prod.collapse)
  with ex_start_twice ex_short_run show ?thesis by (simp add: ex_short_failed_def)
qed

text \<open>
  Claim C1, amended.  Take a batch whose chunks have pairwise different pairs of
  table and external key, written by a successful \<open>PutChunks\<close> on the empty store,
  and request identities with the start time and the key of the written chunks, from
  which the written bytes decode to the written chunks.  Then \<open>GetChunks\<close> starts;
  it never panics; while it gathers it can always go on; and whenever it returns,
  it returns the written chunks in some order, or, if the context was cancelled,
  possibly the error of the context.
\<close>

theorem PutChunks_GetChunks_roundtrip:
  assumes m: "0 < maxRowReads K"
    and d: "distinct (map (\<lambda>c. (tableOf E c, ExternalKey E c)) chunks)"
    and i: "\<forall>c \<in> set chunks. From (ident c) = From c
              \<and> ExternalKey E (ident c) = ExternalKey E c
              \<and> Decode E (ident c) (encodedOf E c) = Inr c"
    and p: "PutChunks K E (memApplyBulk now) chunks memEmpty = (None, st)"
  shows "\<exists>s0. GetChunks_start K E (memReadRows st) (map ident chunks) = Some (Inr s0)
           \<and> (\<forall>s. steps s0 s \<longrightarrow>
                 main s \<noteq> Crashed
                 \<and> (\<forall>output. main s = Gathering output
                       \<longrightarrow> (\<exists>s'. step s s' \<and> ctxErr s' = ctxErr s))
                 \<and> (\<forall>r. main s = Returned r
                       \<longrightarrow> (\<exists>output. r = Inr output \<and> mset output = mset chunks)
                           \<or> (\<exists>e. r = Inl e \<and> ctxErr s = Some e)))"
proof -
  define input where "input = map ident chunks"
  define pr where "pr = (\<lambda>c. (tableOf E c, ExternalKey E c))"
  from p obtain pk pm where put: "putLoop K E chunks [] [] = Inr (pk, pm)"
    by (auto simp: PutChunks_def split: sum.splits)
  have routed: "ChunkTableFor E (From c) = Inr (tableOf E c)" if "c \<in> set chunks" for c
    using putLoop_ok[OF put that] by simp
  have same: "pr (ident c) = pr c" if "c \<in> set chunks" for c
    using i that by (simp add: pr_def tableOf_def)
  have "\<forall>q \<in> set input. ChunkTableFor E (From q) = Inr (tableOf E q)"
    using routed i by (auto simp: input_def tableOf_def)
  from groupLoop_Inr[OF this, of "[]" Map.empty] obtain keys gch where
    g: "groupLoop E input [] Map.empty = Inr (keys, gch)" by auto
  from spawnAll_paged[OF m, of E "memReadRows st" gch keys] obtain tps where
    sp: "spawnAll K E (memReadRows st) gch keys
           = Some (map (\<lambda>(t, page). goroutine K E (memReadRows st) gch t page) tps)"
    and pg: "paged (maxRowReads K) keys tps" by blast
  define s0 where "s0 = \<lparr>procs = map (\<lambda>(t, page). goroutine K E (memReadRows st) gch t page) tps,
      outs = [], errs = [], cap = length input, ctxErr = None, main = Gathering []\<rparr>"
  from g sp have start: "GetChunks_start K E (memReadRows st) input = Some (Inr s0)"
    by (simp add: GetChunks_start_def s0_def)

  have "map (\<lambda>c. (tableOf E c, ExternalKey E c)) input = map pr chunks"
    using same by (simp add: input_def pr_def)
  with groupLoop_pairs[OF g] have pairs: "mset (pairsOf keys) = mset (map pr chunks)"
    by (simp add: pairsOf_def[of "[]"])
  from d have dpr: "distinct (map pr chunks)" by (simp add: pr_def)
  then have inj: "inj_on pr (set chunks)" by (simp add: distinct_map)
  from pairs dpr have "distinct (pairsOf keys)" by (metis mset_eq_imp_distinct_iff)
  with paged_pairs[OF pg] have dtps: "distinct (pairsOf tps)" by simp

  define h where "h = (\<lambda>t k. THE c. c \<in> set chunks \<and> pr c = (t, k))"
  have hc: "h (tableOf E c) (ExternalKey E c) = c" if "c \<in> set chunks" for c
  proof -
    have "(THE x. x \<in> set chunks \<and> pr x = pr c) = c"
      using that inj by (intro the_equality) (auto dest: inj_onD)
    then show ?thesis by (simp add: h_def pr_def)
  qed

  have page: "goroutine K E (memReadRows st) gch t page = map SendOut (map (h t) (sort page))"
    if tp: "(t, page) \<in> set tps" for t page
  proof (rule goroutine_all_present)
    from dtps tp show "distinct page" by (rule distinct_page)
    show "\<forall>k \<in> set page. \<exists>row. st t k = Some row
           \<and> callback K E (chunksAt gch t) row = Continue (h t k)"
    proof
      fix k assume "k \<in> set page"
      with tp have "(t, k) \<in> set (pairsOf tps)" by (auto simp: pairsOf_set)
      with paged_pairs[OF pg] have "(t, k) \<in># mset (pairsOf keys)" by simp
      with pairs have "(t, k) \<in> set (map pr chunks)" by simp
      then obtain c where c: "c \<in> set chunks" "pr c = (t, k)" by auto
      then have tk: "tableOf E c = t" "ExternalKey E c = k" by (simp_all add: pr_def)
      define row where "row = [(columnFamily K,
                    [\<lparr>Row = k, Column = column K, Timestamp = 0, Value = encodedOf E c\<rparr>])]"
      from PutChunks_row[OF p d c(1)] tk have row: "st t k = Some row" by (simp add: row_def)
      from c(1) have "ident c \<in> set input" by (simp add: input_def)
      with groupLoop_chunks[OF g] obtain q where q: "q \<in> set input"
        "chunksAt gch (tableOf E (ident c)) (ExternalKey E (ident c)) = Some q"
        "tableOf E q = tableOf E (ident c)" "ExternalKey E q = ExternalKey E (ident c)"
        by blast
      from same[OF c(1)] tk have idc: "tableOf E (ident c) = t" "ExternalKey E (ident c) = k"
        by (simp_all add: pr_def)
      from q(1) obtain c' where c': "c' \<in> set chunks" "q = ident c'" by (auto simp: input_def)
      with q(3,4) idc same[OF c'(1)] have "pr c' = (t, k)" by (simp add: pr_def)
      with c(2) have "pr c' = pr c" by simp
      from inj_onD[OF inj this c'(1) c(1)] have "c' = c" .
      with q(2) idc c'(2) have at: "chunksAt gch t k = Some (ident c)" by simp
      from i c(1) have "Decode E (ident c) (encodedOf E c) = Inr c" by simp
      with at have "callback K E (chunksAt gch t) row = Continue c"
        by (simp add: callback_def row_def cellsOf_def)
      with row hc[OF c(1)] tk show "\<exists>row. st t k = Some row
           \<and> callback K E (chunksAt gch t) row = Continue (h t k)" by auto
    qed
  qed
  then have "map (\<lambda>(t, page). goroutine K E (memReadRows st) gch t page) tps
      = map (\<lambda>(t, page). map SendOut (map (h t) (sort page))) tps" by auto
  then have ps: "procs s0 = map (\<lambda>(t, page). map SendOut (map (h t) (sort page))) tps"
    by (simp add: s0_def)
  note so = sends_only[of h tps, folded ps]

  have "mset (pendingOuts (procs s0)) = mset (concat (map (\<lambda>(t, ks). map (h t) ks) keys))"
    using so paged_concat_map[OF pg, of h] by simp
  also have "\<dots> = image_mset (\<lambda>(t, k). h t k) (mset (pairsOf keys))"
    by (simp add: pairsOf_map)
  also have "\<dots> = mset (map (\<lambda>c. h (tableOf E c) (ExternalKey E c)) chunks)"
    unfolding pairs by (simp add: pr_def multiset.map_comp comp_def)
  also have "\<dots> = mset chunks" using hc by (simp cong: map_cong)
  finally have total: "mset (pendingOuts (procs s0)) = mset chunks" .

  have init: "main s0 = Gathering []" "outs s0 = []" "errs s0 = []" "cap s0 = length chunks"
    by (simp_all add: s0_def input_def)

  have run: "main s \<noteq> Crashed
       \<and> (\<forall>out. main s = Gathering out \<longrightarrow> (\<exists>s'. step s s' \<and> ctxErr s' = ctxErr s))
       \<and> (\<forall>r. main s = Returned r
             \<longrightarrow> (\<exists>out. r = Inr out \<and> mset out = mset chunks)
                 \<or> (\<exists>e. r = Inl e \<and> ctxErr s = Some e))"
    if st: "steps s0 s" for s
  proof (intro conjI allI impI)
    from steps_no_crash[OF st] init(1) so show "main s \<noteq> Crashed" by simp
  next
    fix out assume "main s = Gathering out"
    with gathering_never_hangs[OF m start st] show "\<exists>s'. step s s' \<and> ctxErr s' = ctxErr s" .
  next
    fix r assume r: "main s = Returned r"
    show "(\<exists>out. r = Inr out \<and> mset out = mset chunks) \<or> (\<exists>e. r = Inl e \<and> ctxErr s = Some e)"
    proof (cases r)
      case (Inl e)
      with steps_returned_err[OF st init(1,3)] r so show ?thesis by simp
    next
      case (Inr out)
      from steps_conserve[OF st init(1,2)] r Inr total
      have sum: "mset out + mset (outs s) + mset (pendingOuts (procs s)) = mset chunks"
        and len: "length out = cap s" by auto
      from len steps_cap[OF st] init(4) have "size (mset out) = size (mset chunks)" by simp
      with sum[THEN arg_cong[of _ _ size]] have "mset (outs s) + mset (pendingOuts (procs s)) = {#}"
        by simp
      with sum have "mset out = mset chunks" by (simp add: add.assoc)
      with Inr show ?thesis by simp
    qed
  qed
  from start run show ?thesis unfolding input_def by blast
qed

theorem PutChunks_GetChunks_roundtrip_witness:
  "0 < maxRowReads ex_K
   \<and> distinct (map (\<lambda>c. (tableOf ex_E c, ExternalKey ex_E c)) [ex_chunk1, ex_chunk2])
   \<and> Decode ex_E ex_chunk1 (encodedOf ex_E ex_chunk1) = Inr ex_chunk1
   \<and> Decode ex_E ex_chunk2 (encodedOf ex_E ex_chunk2) = Inr ex_chunk2
   \<and> PutChunks ex_K ex_E (memApplyBulk 77) [ex_chunk1, ex_chunk2] memEmpty = (None, ex_store)
   \<and> GetChunks_start ex_K ex_E (memReadRows ex_store) [ex_chunk1, ex_chunk2] = Some (Inr ex_run0)
   \<and> steps ex_run0 ex_run_full
   \<and> main ex_run_full = Returned (Inr [ex_chunk1, ex_chunk2])
   \<and> main ex_run_full \<noteq> Crashed
   \<and> (\<exists>output. (Inr [ex_chunk1, ex_chunk2] :: error + Chunk list) = Inr output
         \<and> mset output = mset [ex_chunk1, ex_chunk2])"
proof -
  have m: "0 < maxRowReads ex_K" by (simp add: ex_K_def)
  have d: "distinct (map (\<lambda>c. (tableOf ex_E c, ExternalKey ex_E c)) [ex_chunk1, ex_chunk2])"
    by (simp add: ex_eval)
  have c: "Decode ex_E ex_chunk1 (encodedOf ex_E ex_chunk1) = Inr ex_chunk1"
    "Decode ex_E ex_chunk2 (encodedOf ex_E ex_chunk2) = Inr ex_chunk2"
    by (simp_all add: ex_eval encodedOf_def)
  then have i: "\<forall>c \<in> set [ex_chunk1, ex_chunk2]. From ((\<lambda>c. c) c) = From c
              \<and> ExternalKey ex_E ((\<lambda>c. c) c) = ExternalKey ex_E c
              \<and> Decode ex_E ((\<lambda>c. c) c) (encodedOf ex_E c) = Inr c" by simp
  have "fst (PutChunks ex_K ex_E (memApplyBulk 77) [ex_chunk1, ex_chunk2] memEmpty) = None"
    by (simp add: ex_eval)
  then have p: "PutChunks ex_K ex_E (memApplyBulk 77) [ex_chunk1, ex_chunk2] memEmpty
      = (None, ex_store)"
    unfolding ex_store_def by (metis prod.collapse)
  have run: "steps ex_run0 ex_run_full" using ex_cancel_run ex_full_run by simp
  have ret: "main ex_run_full = Returned (Inr [ex_chunk1, ex_chunk2])"
    by (simp add: ex_run_full_def)
  from PutChunks_GetChunks_roundtrip[OF m d i p] ex_start run
  have "main ex_run_full \<noteq> Crashed" by simp
  with m d c p ex_start run ret show ?thesis by simp
qed

end
